theory Spec2Isabelle
  imports Complex_Main "HOL-Library.Multiset" "HOL-Library.Log_Nat"
begin

section \<open>JavaScript strings\<close>

text \<open>
  Strings are lists of characters. The string methods the repository calls are written
  out as list functions with the names JavaScript gives them. Characters are the code
  units below 256.
\<close>

definition startsWith :: "string \<Rightarrow> string \<Rightarrow> bool" where
  "startsWith s p = (take (length p) s = p)"

definition endsWith :: "string \<Rightarrow> string \<Rightarrow> bool" where
  "endsWith s p = (length p \<le> length s \<and> drop (length s - length p) s = p)"

fun str_includes :: "string \<Rightarrow> string \<Rightarrow> bool" where
  "str_includes [] p = (p = [])"
| "str_includes (c # cs) p = (startsWith (c # cs) p \<or> str_includes cs p)"

text \<open>
  \<open>toLowerCase\<close> on the characters of the model: the ASCII capitals and the Latin-1
  capitals (192 to 222 without the multiplication sign 215) move up by 32.
\<close>

definition lowerChar :: "char \<Rightarrow> char" where
  "lowerChar c = (let n = (of_char c :: nat) in
     if (65 \<le> n \<and> n \<le> 90) \<or> (192 \<le> n \<and> n \<le> 222 \<and> n \<noteq> 215)
     then char_of (n + 32) else c)"

definition toLowerCase :: "string \<Rightarrow> string" where
  "toLowerCase s = map lowerChar s"

text \<open>
  White space as \<open>String.prototype.trim\<close> and the number parsers see it, within the
  character range of the model: tab, line feed, vertical tab, form feed, carriage return,
  space and the no-break space.
\<close>

definition isWhiteSpace :: "char \<Rightarrow> bool" where
  "isWhiteSpace c = ((of_char c :: nat) \<in> {9, 10, 11, 12, 13, 32, 160})"

definition trimStart :: "string \<Rightarrow> string" where
  "trimStart s = dropWhile isWhiteSpace s"

definition trim :: "string \<Rightarrow> string" where
  "trim s = rev (dropWhile isWhiteSpace (rev (dropWhile isWhiteSpace s)))"

text \<open>\<open>s.split(sep)\<close> for a one-character separator: always at least one piece.\<close>

fun split :: "char \<Rightarrow> string \<Rightarrow> string list" where
  "split sep [] = [[]]"
| "split sep (c # cs) =
     (if c = sep then [] # split sep cs
      else (case split sep cs of [] \<Rightarrow> [[c]] | p # ps \<Rightarrow> (c # p) # ps))"

text \<open>\<open>s.replace(pat, rep)\<close> with a string pattern: the first occurrence only.\<close>

fun replace :: "string \<Rightarrow> string \<Rightarrow> string \<Rightarrow> string" where
  "replace [] pat rep = (if pat = [] then rep else [])"
| "replace (c # cs) pat rep =
     (if startsWith (c # cs) pat then rep @ drop (length pat) (c # cs)
      else c # replace cs pat rep)"

section \<open>File locator\<close>

text \<open>
  \<open>findCSVFile\<close> of the repository class. The folder is \<open>None\<close> when the directory does
  not exist and the list of its entries, in \<open>readdirSync\<close> order, otherwise. The result is
  the selected entry; the source joins it to the folder path.
\<close>

definition matchesPattern :: "string \<Rightarrow> string \<Rightarrow> bool" where
  "matchesPattern basePattern file =
     (let fileName = toLowerCase file; patternLower = toLowerCase basePattern
      in startsWith fileName patternLower \<and> endsWith fileName ''.csv'')"

definition findCSVFile :: "string list option \<Rightarrow> string \<Rightarrow> string option" where
  "findCSVFile dir pattern =
     (case dir of
        None \<Rightarrow> None
      | Some files \<Rightarrow>
          if pattern \<in> set files then Some pattern
          else (let basePattern = replace pattern ''.csv'' ''''
                in find (matchesPattern basePattern) files))"

section \<open>JavaScript numbers\<close>

text \<open>
  A \<open>number\<close> is \<open>NaN\<close>, an infinity or a finite value, given by the rational it
  stands for. The sign of zero is not part of the model.
\<close>

datatype number = NaN | PosInfinity | NegInfinity | Fin rat

definition signedInfinity :: "rat \<Rightarrow> number" where
  "signedInfinity s = (if s < 0 then NegInfinity else PosInfinity)"

subsection \<open>Rounding to binary64\<close>

text \<open>
  Every arithmetic result is rounded to the nearest binary64 value, ties to the even
  significand. For \<open>a > 0\<close>, \<open>floorLog2 a\<close> is the exponent \<open>e\<close> with
  \<open>2 ^ e \<le> a < 2 ^ (e + 1)\<close>. The unit in the last place is \<open>2 ^ (e - 52)\<close>, and
  \<open>2 ^ (- 1074)\<close> for the subnormal values. The result overflows to an infinity where the
  rounded significand reaches \<open>2 ^ 53\<close> at the exponent 1023, or the exponent is larger.
\<close>

definition floorLog2 :: "rat \<Rightarrow> int" where
  "floorLog2 a = (if 1 \<le> a then bitlen \<lfloor>a\<rfloor> - 1 else - bitlen (\<lceil>1 / a\<rceil> - 1))"

definition roundHalfEven :: "rat \<Rightarrow> int" where
  "roundHalfEven m =
     (let f = \<lfloor>m\<rfloor>; d = m - of_int f
      in if d < 1 / 2 then f else if 1 / 2 < d then f + 1 else if even f then f else f + 1)"

definition round64 :: "rat \<Rightarrow> number" where
  "round64 q =
     (if q = 0 then Fin 0
      else
        (let a = \<bar>q\<bar>;
             e = floorLog2 a;
             p = max (e - 52) (- 1074);
             r = roundHalfEven (a / 2 powi p)
         in if 1024 \<le> e \<or> (e = 1023 \<and> r = 2 ^ 53) then signedInfinity q
            else Fin (sgn q * (of_int r * 2 powi p))))"

subsection \<open>Arithmetic\<close>

fun js_add :: "number \<Rightarrow> number \<Rightarrow> number" where
  "js_add NaN _ = NaN"
| "js_add _ NaN = NaN"
| "js_add PosInfinity NegInfinity = NaN"
| "js_add NegInfinity PosInfinity = NaN"
| "js_add PosInfinity _ = PosInfinity"
| "js_add _ PosInfinity = PosInfinity"
| "js_add NegInfinity _ = NegInfinity"
| "js_add _ NegInfinity = NegInfinity"
| "js_add (Fin a) (Fin b) = round64 (a + b)"

fun js_neg :: "number \<Rightarrow> number" where
  "js_neg NaN = NaN"
| "js_neg PosInfinity = NegInfinity"
| "js_neg NegInfinity = PosInfinity"
| "js_neg (Fin a) = Fin (- a)"

definition js_sub :: "number \<Rightarrow> number \<Rightarrow> number" where
  "js_sub a b = js_add a (js_neg b)"

text \<open>\<open>Math.max\<close> of two arguments.\<close>

fun Math_max :: "number \<Rightarrow> number \<Rightarrow> number" where
  "Math_max NaN _ = NaN"
| "Math_max _ NaN = NaN"
| "Math_max PosInfinity _ = PosInfinity"
| "Math_max _ PosInfinity = PosInfinity"
| "Math_max NegInfinity b = b"
| "Math_max a NegInfinity = a"
| "Math_max (Fin a) (Fin b) = Fin (max a b)"

text \<open>The sign of a number that is not \<open>NaN\<close>: \<open>-1\<close>, \<open>0\<close> or \<open>1\<close>.\<close>

fun js_sgn :: "number \<Rightarrow> rat" where
  "js_sgn NaN = 0"
| "js_sgn PosInfinity = 1"
| "js_sgn NegInfinity = - 1"
| "js_sgn (Fin a) = sgn a"

fun js_div :: "number \<Rightarrow> number \<Rightarrow> number" where
  "js_div NaN _ = NaN"
| "js_div _ NaN = NaN"
| "js_div (Fin a) (Fin b) =
     (if b = 0 then (if a = 0 then NaN else signedInfinity a) else round64 (a / b))"
| "js_div (Fin a) _ = Fin 0"
| "js_div a (Fin b) = signedInfinity (js_sgn a * (if b < 0 then - 1 else 1))"
| "js_div _ _ = NaN"

text \<open>Truthiness of a number, and \<open>x || d\<close>.\<close>

definition truthy :: "number \<Rightarrow> bool" where
  "truthy x = (x \<noteq> NaN \<and> x \<noteq> Fin 0)"

definition js_or :: "number \<Rightarrow> number \<Rightarrow> number" where
  "js_or x d = (if truthy x then x else d)"

subsection \<open>\<open>parseInt(s, 10)\<close> and \<open>parseFloat(s)\<close>\<close>

definition isDigit :: "char \<Rightarrow> bool" where
  "isDigit c = (48 \<le> (of_char c :: nat) \<and> (of_char c :: nat) \<le> 57)"

definition digitsVal :: "string \<Rightarrow> nat" where
  "digitsVal ds = foldl (\<lambda>a c. 10 * a + ((of_char c :: nat) - 48)) 0 ds"

definition isNegative :: "string \<Rightarrow> bool" where
  "isNegative t = (case t of [] \<Rightarrow> False | c # _ \<Rightarrow> c = CHR ''-'')"

definition stripSign :: "string \<Rightarrow> string" where
  "stripSign t = (case t of [] \<Rightarrow> []
     | c # cs \<Rightarrow> if c = CHR ''-'' \<or> c = CHR ''+'' then cs else c # cs)"

text \<open>
  \<open>parseInt\<close> with radix 10: leading white space is skipped, one sign is read, then the
  longest run of decimal digits; no digit gives \<open>NaN\<close>, and the integer read is rounded
  to binary64.
\<close>

definition parseInt :: "string \<Rightarrow> number" where
  "parseInt s =
     (let t = trimStart s;
          z = takeWhile isDigit (stripSign t)
      in if z = [] then NaN
         else round64 ((if isNegative t then - 1 else 1) * of_nat (digitsVal z)))"



section \<open>Sectioned CSV parser\<close>

text \<open>
  A parsed row maps a column name to its raw string; a column the row does not have is
  \<open>None\<close> (\<open>undefined\<close> in the source).
\<close>

type_synonym row = "string \<rightharpoonup> string"

text \<open>The test of the outer loop of \<open>parseCSV\<close>: is line \<open>l\<close> the header line?\<close>

definition isHeaderLine :: "string option \<Rightarrow> string \<Rightarrow> bool" where
  "isHeaderLine sectionHeader l =
     (let line = trim l
      in if line = [] \<or> startsWith line ''#'' then False
         else (case sectionHeader of
                 None \<Rightarrow> str_includes line '',''
               | Some h \<Rightarrow> if h \<noteq> [] then str_includes line h else str_includes line '',''))"

function findHeaderIndex :: "string option \<Rightarrow> string list \<Rightarrow> nat \<Rightarrow> nat option" where
  "findHeaderIndex sectionHeader lines i =
     (if i < length lines then
        (if isHeaderLine sectionHeader (lines ! i) then Some i
         else findHeaderIndex sectionHeader lines (i + 1))
      else None)"
  by pat_completeness auto
termination
  by (relation "measure (\<lambda>(sectionHeader, lines, i). length lines - i)") auto

text \<open>The test of the inner loop: does line \<open>l\<close> start the next section?\<close>

definition isSectionBoundary :: "string \<Rightarrow> bool" where
  "isSectionBoundary l = (startsWith (trim l) ''#'' \<and> str_includes l ''Start date:'')"

function findDataEndIndex :: "string list \<Rightarrow> nat \<Rightarrow> nat" where
  "findDataEndIndex lines j =
     (if j < length lines then
        (if isSectionBoundary (lines ! j) then j else findDataEndIndex lines (j + 1))
      else length lines)"
  by pat_completeness auto
termination
  by (relation "measure (\<lambda>(lines, j). length lines - j)") auto

definition slice :: "'a list \<Rightarrow> nat \<Rightarrow> nat \<Rightarrow> 'a list" where
  "slice xs a b = take (b - a) (drop a xs)"

text \<open>The filter of the data lines: not blank and not a comment.\<close>

definition isDataLine :: "string \<Rightarrow> bool" where
  "isDataLine line = (let trimmed = trim line in trimmed \<noteq> [] \<and> \<not> startsWith trimmed ''#'')"

definition dataLinesOf :: "string list \<Rightarrow> nat \<Rightarrow> string list" where
  "dataLinesOf lines headerIndex =
     (let dataStartIndex = headerIndex + 1;
          dataEndIndex = findDataEndIndex lines (headerIndex + 1)
      in filter isDataLine (slice lines dataStartIndex dataEndIndex))"

fun join :: "string list \<Rightarrow> string" where
  "join [] = []"
| "join [l] = l"
| "join (l # ls) = l @ [CHR 0x0A] @ join ls"

text \<open>
  The line-by-line fallback: header columns are paired with the values of the line by
  position, a missing or empty value is the empty string.
\<close>

definition manualRecord :: "string \<Rightarrow> string \<Rightarrow> row" where
  "manualRecord header dataLine =
     (let headerCols = map trim (split CHR '','' header);
          cols = map trim (split CHR '','' dataLine)
      in foldl (\<lambda>record (col, idx). record(col \<mapsto> (if idx < length cols then cols ! idx else [])))
           Map.empty (zip headerCols [0..<length headerCols]))"

text \<open>
  \<open>parseCSV\<close> on the content of the file. \<open>parse\<close> is the structured parser of the
  csv-parse library applied with the options of the source; \<open>None\<close> is its exception.
\<close>

definition parseCSV :: "(string \<Rightarrow> row list option) \<Rightarrow> string \<Rightarrow> string option \<Rightarrow> row list" where
  "parseCSV parse content sectionHeader =
     (let lines = split CHR 0x0A content
      in case findHeaderIndex sectionHeader lines 0 of
           None \<Rightarrow> []
         | Some headerIndex \<Rightarrow>
             (let header = lines ! headerIndex;
                  dataLines = dataLinesOf lines headerIndex
              in if dataLines = [] then []
                 else (case parse (join (header # dataLines)) of
                         Some records \<Rightarrow> records
                       | None \<Rightarrow> map (manualRecord header) dataLines)))"

section \<open>Calendar days\<close>

text \<open>
  A date is the number of its day, counted from 1970-01-01. \<open>parseISO\<close> reads
  \<open>yyyy-MM-dd\<close> and is \<open>None\<close> for a month or a day that does not exist (the library's
  invalid date); \<open>formatDate\<close> is \<open>format(date, 'yyyy-MM-dd')\<close>.
\<close>

definition isLeapYear :: "int \<Rightarrow> bool" where
  "isLeapYear y = (y mod 4 = 0 \<and> (y mod 100 \<noteq> 0 \<or> y mod 400 = 0))"

definition daysInMonth :: "int \<Rightarrow> int \<Rightarrow> int" where
  "daysInMonth y m =
     (if m = 2 then (if isLeapYear y then 29 else 28)
      else if m = 4 \<or> m = 6 \<or> m = 9 \<or> m = 11 then 30 else 31)"

definition daysFromCivil :: "int \<Rightarrow> int \<Rightarrow> int \<Rightarrow> int" where
  "daysFromCivil y m d =
     (let y' = (if m \<le> 2 then y - 1 else y);
          era = y' div 400;
          yoe = y' - era * 400;
          doy = (153 * (if m > 2 then m - 3 else m + 9) + 2) div 5 + d - 1;
          doe = yoe * 365 + yoe div 4 - yoe div 100 + doy
      in era * 146097 + doe - 719468)"

definition civilFromDays :: "int \<Rightarrow> int \<times> int \<times> int" where
  "civilFromDays z =
     (let z' = z + 719468;
          era = z' div 146097;
          doe = z' - era * 146097;
          yoe = (doe - doe div 1460 + doe div 36524 - doe div 146096) div 365;
          doy = doe - (365 * yoe + yoe div 4 - yoe div 100);
          mp = (5 * doy + 2) div 153;
          d = doy - (153 * mp + 2) div 5 + 1;
          m = (if mp < 10 then mp + 3 else mp - 9);
          y = yoe + era * 400
      in (if m \<le> 2 then y + 1 else y, m, d))"

definition digitChar :: "int \<Rightarrow> char" where
  "digitChar n = char_of (48 + nat (n mod 10))"

definition formatDate :: "int \<Rightarrow> string" where
  "formatDate z =
     (case civilFromDays z of (y, m, d) \<Rightarrow>
        (let yy = (if y > 0 then y else 1 - y)
         in [digitChar (yy div 1000), digitChar (yy div 100), digitChar (yy div 10), digitChar yy]
            @ ''-'' @ [digitChar (m div 10), digitChar m]
            @ ''-'' @ [digitChar (d div 10), digitChar d]))"

definition parseISO :: "string \<Rightarrow> int option" where
  "parseISO s =
     (let y = int (digitsVal (take 4 s));
          m = int (digitsVal (take 2 (drop 5 s)));
          d = int (digitsVal (take 2 (drop 8 s)))
      in if 1 \<le> m \<and> m \<le> 12 \<and> 1 \<le> d \<and> d \<le> daysInMonth y m
         then Some (daysFromCivil y m d) else None)"

text \<open>
  \<open>eachDayOfInterval\<close> of a valid interval. The loader below gives the error
  \<open>InvalidInterval\<close> where a date is invalid or the start is after the end: what the
  library does there depends on its version.
\<close>

definition eachDayOfInterval :: "int \<Rightarrow> int \<Rightarrow> int list" where
  "eachDayOfInterval startDate endDate = [startDate..endDate]"

section \<open>Dataset loaders\<close>

record DailyActiveUsers =
  date :: string
  activeUsers30Days :: number
  activeUsers7Days :: number
  activeUsers1Day :: number

text \<open>
  The fields \<open>eventCount\<close> and \<open>totalRevenue\<close> of the source's \<open>ScreenView\<close> are named
  \<open>screenEventCount\<close> and \<open>screenTotalRevenue\<close> here, apart from the fields of
  \<open>AnalyticsEvent\<close>.
\<close>

record ScreenView =
  screenClass :: string
  views :: number
  activeUsers :: number
  viewsPerActiveUser :: number
  avgEngagementTime :: number
  screenEventCount :: number
  keyEvents :: number
  screenTotalRevenue :: number

record AnalyticsEvent =
  eventName :: string
  eventCount :: number
  totalUsers :: number
  eventCountPerUser :: number
  totalRevenue :: number

datatype error = FileNotFound | DateRangeMissing | InvalidInterval

text \<open>
  The project folder as the loaders see it: its entries (\<open>None\<close> when the directory does
  not exist) and the content of each file.
\<close>

record folder =
  entries :: "string list option"
  readFile :: "string \<Rightarrow> string"

text \<open>Truthiness of \<open>record[k]\<close>, and \<open>record[k] || d\<close>.\<close>

definition hasValue :: "row \<Rightarrow> string \<Rightarrow> bool" where
  "hasValue record k = (case record k of None \<Rightarrow> False | Some v \<Rightarrow> v \<noteq> [])"

definition valueOr :: "row \<Rightarrow> string \<Rightarrow> string \<Rightarrow> string" where
  "valueOr record k d = (case record k of None \<Rightarrow> d | Some v \<Rightarrow> if v = [] then d else v)"






text \<open>
  The first match of \<open>label\<close> followed by eight digits, as the regular expressions
  \<open>/Start date: (\d{8})/\<close> and \<open>/End date: (\d{8})/\<close> find it: the eight digits.
\<close>

fun matchDate :: "string \<Rightarrow> string \<Rightarrow> string option" where
  "matchDate label [] = None"
| "matchDate label (c # cs) =
     (let digits = take 8 (drop (length label) (c # cs))
      in if startsWith (c # cs) label \<and> length digits = 8 \<and> list_all isDigit digits
         then Some digits else matchDate label cs)"

definition isoString :: "string \<Rightarrow> string" where
  "isoString s = take 4 s @ ''-'' @ take 2 (drop 4 s) @ ''-'' @ take 2 (drop 6 s)"

text \<open>
  The last expression of \<open>loadOverviewData\<close>: the rows with an \<open>Nth day\<close> and a
  \<open>30 days\<close> value, row \<open>index\<close> dated \<open>allDates[index] || startDate\<close>.
\<close>

definition dailyRecords :: "int \<Rightarrow> int list \<Rightarrow> row list \<Rightarrow> DailyActiveUsers list" where
  "dailyRecords startDate allDates records =
     (let kept = filter (\<lambda>record. hasValue record ''Nth day'' \<and> hasValue record ''30 days'') records
      in map (\<lambda>(record, index).
            (let d = (if index < length allDates then allDates ! index else startDate)
             in \<lparr> date = formatDate d,
                  activeUsers30Days = parseInt (valueOr record ''30 days'' ''0''),
                  activeUsers7Days = parseInt (valueOr record ''7 days'' ''0''),
                  activeUsers1Day = parseInt (valueOr record ''1 day'' ''0'') \<rparr>))
           (zip kept [0..<length kept]))"

definition loadOverviewData ::
  "(string \<Rightarrow> row list option) \<Rightarrow> folder \<Rightarrow> error + DailyActiveUsers list" where
  "loadOverviewData parse fs =
     (case findCSVFile (entries fs) ''Firebase_overview.csv'' of
        None \<Rightarrow> Inl FileNotFound
      | Some filePath \<Rightarrow>
          (let records = parseCSV parse (readFile fs filePath) (Some ''30 days'');
               content = readFile fs filePath
           in case (matchDate ''Start date: '' content, matchDate ''End date: '' content) of
                (Some startDateStr, Some endDateStr) \<Rightarrow>
                  (case (parseISO (isoString startDateStr), parseISO (isoString endDateStr)) of
                     (Some startDate, Some endDate) \<Rightarrow>
                       if endDate < startDate then Inl InvalidInterval
                       else Inr (dailyRecords startDate
                                   (eachDayOfInterval startDate endDate) records)
                   | _ \<Rightarrow> Inl InvalidInterval)
              | _ \<Rightarrow> Inl DateRangeMissing))"

section \<open>Feature aggregation\<close>

datatype featureType = TScreen | TEvent | TMenu | TAction | TSystem


text \<open>
  The four fields that \<open>FeatureUsageDetail\<close> and \<open>FeatureUsageStats\<close> share, and the two
  records as extensions of them.
\<close>

record Feature =
  featureName :: string
  usageCount :: number
  uniqueUsers :: number
  avgUsagePerUser :: number

record FeatureUsageDetail = Feature +
  featureType :: featureType
  engagementTime :: "number option"
  relatedScreens :: "string list option"


subsection \<open>The \<open>Map\<close> of JavaScript\<close>

text \<open>
  A \<open>Map\<close> keeps its entries in insertion order: \<open>set\<close> on a key that is present
  replaces the value where it stands, on a new key it appends.
\<close>

fun Map_set :: "'k \<Rightarrow> 'v \<Rightarrow> ('k \<times> 'v) list \<Rightarrow> ('k \<times> 'v) list" where
  "Map_set k v [] = [(k, v)]"
| "Map_set k v ((k', v') # m) = (if k' = k then (k, v) # m else (k', v') # Map_set k v m)"

definition Map_get :: "('k \<times> 'v) list \<Rightarrow> 'k \<Rightarrow> 'v option" where
  "Map_get m k = map_of m k"

definition Map_values :: "('k \<times> 'v) list \<Rightarrow> 'v list" where
  "Map_values m = map snd m"

subsection \<open>\<open>Array.prototype.sort\<close>\<close>

text \<open>
  A stable sort by a comparator: \<open>x\<close> goes behind \<open>y\<close> only where \<open>cmp x y\<close> is
  positive. This is the result of every stable sort where the comparator is a consistent
  order. A comparator value \<open>NaN\<close> counts as zero here; the order an engine gives then
  is its own, and no property below depends on it.
\<close>

fun insertSorted :: "('a \<Rightarrow> 'a \<Rightarrow> number) \<Rightarrow> 'a \<Rightarrow> 'a list \<Rightarrow> 'a list" where
  "insertSorted cmp x [] = [x]"
| "insertSorted cmp x (y # ys) =
     (if js_sgn (cmp x y) > 0 then y # insertSorted cmp x ys else x # y # ys)"

definition js_sort :: "('a \<Rightarrow> 'a \<Rightarrow> number) \<Rightarrow> 'a list \<Rightarrow> 'a list" where
  "js_sort cmp xs = foldr (insertSorted cmp) xs []"

text \<open>The comparator \<open>(a, b) => b.usageCount - a.usageCount\<close>.\<close>

definition byUsageDesc :: "'a Feature_scheme \<Rightarrow> 'a Feature_scheme \<Rightarrow> number" where
  "byUsageDesc a b = js_sub (usageCount b) (usageCount a)"

subsection \<open>The detailed aggregation: \<open>getFeatureUsageAnalysis\<close>\<close>

definition isFeatureScreen :: "ScreenView \<Rightarrow> bool" where
  "isFeatureScreen screen =
     (screenClass screen \<noteq> [] \<and> screenClass screen \<noteq> ''(not set)''
      \<and> screenClass screen \<noteq> ''(other)'')"

definition seedScreen ::
  "ScreenView \<Rightarrow> (string \<times> FeatureUsageDetail) list \<Rightarrow> (string \<times> FeatureUsageDetail) list" where
  "seedScreen screen featureMap =
     (if isFeatureScreen screen then
        Map_set (screenClass screen)
          \<lparr> featureName = screenClass screen,
            usageCount = views screen,
            uniqueUsers = activeUsers screen,
            avgUsagePerUser = viewsPerActiveUser screen,
            featureType = TScreen,
            engagementTime = Some (avgEngagementTime screen),
            relatedScreens = None \<rparr> featureMap
      else featureMap)"

definition classify :: "string \<Rightarrow> featureType" where
  "classify name =
     (if startsWith name ''menu_'' then TMenu
      else if str_includes name ''login'' \<or> str_includes name ''logout''
              \<or> str_includes name ''select_'' then TAction
      else if name \<in> set [''screen_view'', ''user_engagement'', ''session_start'',
                            ''app_update'', ''os_update'', ''first_open''] then TSystem
      else TEvent)"

text \<open>The merge of an event into the entry that its name already has.\<close>

definition mergeInto :: "AnalyticsEvent \<Rightarrow> 'a Feature_scheme \<Rightarrow> 'a Feature_scheme" where
  "mergeInto event existing =
     (let usage = js_add (usageCount existing) (eventCount event);
          users = Math_max (uniqueUsers existing) (totalUsers event)
      in existing\<lparr> usageCount := usage, uniqueUsers := users,
                    avgUsagePerUser := js_div usage (js_or users (Fin 1)) \<rparr>)"

definition mergeEvent ::
  "AnalyticsEvent \<Rightarrow> (string \<times> FeatureUsageDetail) list \<Rightarrow> (string \<times> FeatureUsageDetail) list" where
  "mergeEvent event featureMap =
     (let name = eventName event;
          type = classify name
      in case Map_get featureMap name of
           Some existing \<Rightarrow> Map_set name (mergeInto event existing) featureMap
         | None \<Rightarrow>
             Map_set name
               \<lparr> featureName = name,
                 usageCount = eventCount event,
                 uniqueUsers = totalUsers event,
                 avgUsagePerUser = eventCountPerUser event,
                 featureType = type,
                 engagementTime = None,
                 relatedScreens = None \<rparr> featureMap)"

definition sharesKeyword :: "string \<Rightarrow> ScreenView \<Rightarrow> bool" where
  "sharesKeyword name screen =
     (let screenName = toLowerCase (screenClass screen);
          featureLower = toLowerCase name
      in (str_includes featureLower ''document'' \<and> str_includes screenName ''document'')
       \<or> (str_includes featureLower ''course'' \<and> str_includes screenName ''course'')
       \<or> (str_includes featureLower ''dashboard'' \<and> str_includes screenName ''dashboard'')
       \<or> (str_includes featureLower ''audit'' \<and> str_includes screenName ''audit'')
       \<or> (str_includes featureLower ''communication''
            \<and> str_includes screenName ''communication''))"

text \<open>\<open>[...new Set(xs)]\<close>: the first occurrence of each element, in order.\<close>

definition uniqueInOrder :: "'a list \<Rightarrow> 'a list" where
  "uniqueInOrder xs = foldl (\<lambda>acc x. if x \<in> set acc then acc else acc @ [x]) [] xs"

definition attachRelated ::
  "ScreenView list \<Rightarrow> string \<times> FeatureUsageDetail \<Rightarrow> string \<times> FeatureUsageDetail" where
  "attachRelated screenViews entry =
     (case entry of (name, feature) \<Rightarrow>
        if featureType feature = TMenu \<or> featureType feature = TAction then
          (let related = map screenClass (filter (sharesKeyword name) screenViews)
           in if related \<noteq> [] then (name, feature\<lparr> relatedScreens := Some (uniqueInOrder related) \<rparr>)
              else (name, feature))
        else (name, feature))"

definition detailMap ::
  "AnalyticsEvent list \<Rightarrow> ScreenView list \<Rightarrow> (string \<times> FeatureUsageDetail) list" where
  "detailMap events screenViews =
     map (attachRelated screenViews) (fold mergeEvent events (fold seedScreen screenViews []))"

text \<open>
  \<open>getFeatureUsageAnalysis\<close> on the events and the screens the two loaders returned.
\<close>

definition getFeatureUsageAnalysis ::
  "AnalyticsEvent list \<Rightarrow> ScreenView list \<Rightarrow> FeatureUsageDetail list" where
  "getFeatureUsageAnalysis events screenViews =
     js_sort byUsageDesc (Map_values (detailMap events screenViews))"

subsection \<open>The summary aggregation: \<open>analyzeFeatureUsage\<close>\<close>







section \<open>The data range in the words of the specification\<close>

text \<open>
  The lines after the header line \<open>h\<close> up to the end of the file or the first comment
  line that contains \<open>Start date:\<close>, and of these the lines that are neither blank nor
  comments.
\<close>

definition spec_dataRange :: "string list \<Rightarrow> nat \<Rightarrow> string list" where
  "spec_dataRange lines h =
     takeWhile (\<lambda>l. \<not> (startsWith (trim l) ''#'' \<and> str_includes l ''Start date:''))
       (drop (Suc h) lines)"

definition spec_dataRows :: "string list \<Rightarrow> nat \<Rightarrow> string list" where
  "spec_dataRows lines h =
     filter (\<lambda>l. trim l \<noteq> [] \<and> \<not> startsWith (trim l) ''#'') (spec_dataRange lines h)"

section \<open>Example inputs\<close>

text \<open>A structured parser that always throws, so that the line-by-line fallback runs.\<close>

definition failingParse :: "string \<Rightarrow> row list option" where
  "failingParse text = None"

definition exampleOverview :: string where
  "exampleOverview = join
     [''# Start date: 20240101'',
      ''# End date: 20240103'',
      ''Nth day,30 days,7 days,1 day'',
      ''0,10,5,2'',
      [],
      ''1,12,6,3'',
      ''# a comment'',
      ''2,15,7,1'',
      ''# Start date: 20240101'',
      ''Country,Active users'',
      ''KR,7'']"

definition exampleNoHeader :: string where
  "exampleNoHeader = join [''# Start date: 20240101'', [], ''no table here'']"

definition exampleNoRows :: string where
  "exampleNoRows = join
     [''Nth day,30 days,7 days,1 day'',
      [],
      ''# a comment'',
      ''# Start date: 20240101'',
      ''Country,Active users'',
      ''KR,7'']"

section \<open>The numeric fields of the loaders\<close>




section \<open>Example files with malformed numbers\<close>




section \<open>Example overview folders\<close>

definition exampleOverviewFolder :: folder where
  "exampleOverviewFolder =
     \<lparr> entries = Some [''Firebase_overview.csv''], readFile = (\<lambda>path. exampleOverview) \<rparr>"

definition exampleOneDayFolder :: folder where
  "exampleOneDayFolder =
     \<lparr> entries = Some [''Firebase_overview.csv''],
       readFile = (\<lambda>path. join
         [''# Start date: 20240101'',
          ''# End date: 20240101'',
          ''Nth day,30 days,7 days,1 day'',
          ''0,10,5,2'',
          ''1,12,6,3'']) \<rparr>"

text \<open>The rows that the overview loader keeps: those with an \<open>Nth day\<close> and a \<open>30 days\<close> value.\<close>

definition keptRows :: "row list \<Rightarrow> row list" where
  "keptRows records =
     filter (\<lambda>record. hasValue record ''Nth day'' \<and> hasValue record ''30 days'') records"

section \<open>Counts, seeds and example records\<close>

text \<open>
  The counts of the data model: an integer, and a non-negative integer.
\<close>

definition isInteger :: "number \<Rightarrow> bool" where
  "isInteger x = (case x of Fin q \<Rightarrow> q = of_int \<lfloor>q\<rfloor> | _ \<Rightarrow> False)"

definition isCount :: "number \<Rightarrow> bool" where
  "isCount x = (case x of Fin q \<Rightarrow> q = of_int \<lfloor>q\<rfloor> \<and> 0 \<le> q | _ \<Rightarrow> False)"

text \<open>A screen and an event with the given name, count and number of users.\<close>

definition exScreen :: "string \<Rightarrow> rat \<Rightarrow> rat \<Rightarrow> ScreenView" where
  "exScreen name v u =
     \<lparr> screenClass = name, views = Fin v, activeUsers = Fin u,
       viewsPerActiveUser = Fin (v / u), avgEngagementTime = Fin (452 / 10),
       screenEventCount = Fin v, keyEvents = Fin 0, screenTotalRevenue = Fin 0 \<rparr>"

definition exEvent :: "string \<Rightarrow> rat \<Rightarrow> rat \<Rightarrow> AnalyticsEvent" where
  "exEvent name c u =
     \<lparr> eventName = name, eventCount = Fin c, totalUsers = Fin u,
       eventCountPerUser = Fin (c / u), totalRevenue = Fin 0 \<rparr>"

text \<open>
  An entry of the feature map that is the seed of one of the screens: the screen passes
  the filter of the seeding loop, and the entry is the record that loop stores for it.
\<close>

definition seededFrom :: "ScreenView list \<Rightarrow> string \<times> FeatureUsageDetail \<Rightarrow> bool" where
  "seededFrom screenViews entry =
     (case entry of (k, f) \<Rightarrow>
        \<exists>screen \<in> set screenViews. isFeatureScreen screen \<and> screenClass screen = k
          \<and> f = \<lparr> featureName = screenClass screen, usageCount = views screen,
                  uniqueUsers = activeUsers screen,
                  avgUsagePerUser = viewsPerActiveUser screen, featureType = TScreen,
                  engagementTime = Some (avgEngagementTime screen), relatedScreens = None \<rparr>)"

text \<open>
  Where an entry of the detailed feature map comes from: it carries its key as its name,
  and it is either of type \<open>screen\<close> with the engagement time of a screen of that name
  that passes the seeding filter, or of the type its name classifies to, named after one
  of the events, without an engagement time.
\<close>

definition originOf ::
  "ScreenView list \<Rightarrow> string set \<Rightarrow> string \<times> FeatureUsageDetail \<Rightarrow> bool" where
  "originOf screenViews names entry =
     (case entry of (k, f) \<Rightarrow>
        featureName f = k
        \<and> ((featureType f = TScreen
             \<and> (\<exists>screen \<in> set screenViews. isFeatureScreen screen \<and> screenClass screen = k
                   \<and> engagementTime f = Some (avgEngagementTime screen)))
           \<or> (featureType f = classify k \<and> k \<in> names \<and> engagementTime f = None)))"

text \<open>A finite number, and its value.\<close>

definition isFinite :: "number \<Rightarrow> bool" where
  "isFinite x = (case x of Fin q \<Rightarrow> True | _ \<Rightarrow> False)"

definition finVal :: "number \<Rightarrow> rat" where
  "finVal x = (case x of Fin q \<Rightarrow> q | _ \<Rightarrow> 0)"



text \<open>Three events and two screens; one event and one screen are named \<open>session_start\<close>.\<close>

definition exampleEvents :: "AnalyticsEvent list" where
  "exampleEvents =
     [exEvent ''session_start'' 20 3, exEvent ''menu_settings'' 20 15, exEvent ''Home'' 7 400]"

definition exampleScreens :: "ScreenView list" where
  "exampleScreens = [exScreen ''Home'' 500 300, exScreen ''session_start'' 9 2]"

text \<open>
  A count that is safe: a non-negative integer of at most \<open>2 ^ 53\<close>. Sums and
  differences of safe counts that stay in this range are exact in binary64.
\<close>

definition isSafeCount :: "number \<Rightarrow> bool" where
  "isSafeCount x = (case x of Fin q \<Rightarrow> q = of_int \<lfloor>q\<rfloor> \<and> 0 \<le> q \<and> q \<le> 2 ^ 53 | _ \<Rightarrow> False)"

text \<open>
  The event counts and the views are safe for the aggregation: they are non-negative
  integers, and the event counts together with the views of any one screen add up to at
  most \<open>2 ^ 53\<close>, so that no usage count is ever rounded.
\<close>

definition sumCounts :: "AnalyticsEvent list \<Rightarrow> rat" where
  "sumCounts events = sum_list (map (\<lambda>e. finVal (eventCount e)) events)"

definition safeCounts :: "AnalyticsEvent list \<Rightarrow> ScreenView list \<Rightarrow> bool" where
  "safeCounts events screenViews =
     ((\<forall>e \<in> set events. isCount (eventCount e))
      \<and> sumCounts events \<le> 2 ^ 53
      \<and> (\<forall>s \<in> set screenViews. isCount (views s)
             \<and> finVal (views s) + sumCounts events \<le> 2 ^ 53))"

text \<open>
  A feature map is within the budget \<open>S\<close>: every usage count is a non-negative integer
  that stays at most \<open>2 ^ 53\<close> when \<open>S\<close> is added to it.
\<close>

definition withinBudget :: "rat \<Rightarrow> (string \<times> 'a Feature_scheme) list \<Rightarrow> bool" where
  "withinBudget S m =
     (0 \<le> S \<and> S \<le> 2 ^ 53
      \<and> (\<forall>entry \<in> set m. isCount (usageCount (snd entry))
             \<and> finVal (usageCount (snd entry)) + S \<le> 2 ^ 53))"

text \<open>
  The merge of an event with the sum taken exactly, the entry that the event loop stores
  for an event whose name is new, and the step of the event loop with the exact sum: on
  the feature map, and on the feature map read as a function from names to entries.
\<close>

definition exactMergeInto :: "AnalyticsEvent \<Rightarrow> 'a Feature_scheme \<Rightarrow> 'a Feature_scheme" where
  "exactMergeInto event existing =
     (let usage = Fin (finVal (usageCount existing) + finVal (eventCount event));
          users = Math_max (uniqueUsers existing) (totalUsers event)
      in existing\<lparr> usageCount := usage, uniqueUsers := users,
                    avgUsagePerUser := js_div usage (js_or users (Fin 1)) \<rparr>)"

definition newDetail :: "AnalyticsEvent \<Rightarrow> FeatureUsageDetail" where
  "newDetail event =
     \<lparr> featureName = eventName event, usageCount = eventCount event,
       uniqueUsers = totalUsers event, avgUsagePerUser = eventCountPerUser event,
       featureType = classify (eventName event), engagementTime = None,
       relatedScreens = None \<rparr>"

definition exactMergeEvent ::
  "AnalyticsEvent \<Rightarrow> (string \<times> FeatureUsageDetail) list \<Rightarrow> (string \<times> FeatureUsageDetail) list" where
  "exactMergeEvent event featureMap =
     (case Map_get featureMap (eventName event) of
        Some existing \<Rightarrow> Map_set (eventName event) (exactMergeInto event existing) featureMap
      | None \<Rightarrow> Map_set (eventName event) (newDetail event) featureMap)"

definition exactMergeFun ::
  "AnalyticsEvent \<Rightarrow> (string \<rightharpoonup> FeatureUsageDetail) \<Rightarrow> (string \<rightharpoonup> FeatureUsageDetail)" where
  "exactMergeFun event g =
     g(eventName event \<mapsto>
        (case g (eventName event) of
           Some existing \<Rightarrow> exactMergeInto event existing
         | None \<Rightarrow> newDetail event))"

text \<open>
  Three events whose sum is rounded in one order and not in the other.
\<close>

definition exampleLargeEvents :: "AnalyticsEvent list" where
  "exampleLargeEvents = [exEvent ''a'' (2 ^ 53) 1, exEvent ''a'' 1 1, exEvent ''a'' 1 1]"

text \<open>
  A merge into a screen entry whose users are negative, and one where the users of the
  event are \<open>NaN\<close>, as the loaders give them for the cells \<open>-5\<close>, \<open>-3\<close> and \<open>abc\<close>.
\<close>

definition exampleNegativeUsers :: "(string \<times> FeatureUsageDetail) list" where
  "exampleNegativeUsers =
     mergeEvent (exEvent ''Home'' 5 (- 3)) (fold seedScreen [exScreen ''Home'' 10 (- 5)] [])"

definition exampleNaNUsers :: "(string \<times> FeatureUsageDetail) list" where
  "exampleNaNUsers =
     mergeEvent \<lparr> eventName = ''Home'', eventCount = Fin 5, totalUsers = NaN,
                  eventCountPerUser = NaN, totalRevenue = Fin 0 \<rparr>
       (fold seedScreen [exScreen ''Home'' 10 2] [])"

section \<open>Properties of the file locator\<close>










section \<open>Properties of the sectioned parser\<close>

declare findHeaderIndex.simps [simp del] findDataEndIndex.simps [simp del]

lemma findDataEndIndex_takeWhile:
  "j \<le> length lines \<Longrightarrow>
   findDataEndIndex lines j = j + length (takeWhile (\<lambda>l. \<not> isSectionBoundary l) (drop j lines))"
proof (induction lines j rule: findDataEndIndex.induct)
  case (1 lines j)
  show ?case
  proof (cases "j < length lines")
    case True
    then have d: "drop j lines = lines ! j # drop (Suc j) lines"
      by (simp add: Cons_nth_drop_Suc)
    show ?thesis
    proof (cases "isSectionBoundary (lines ! j)")
      case True
      with \<open>j < length lines\<close> d show ?thesis
        by (subst findDataEndIndex.simps) simp
    next
      case False
      with \<open>j < length lines\<close> d "1.IH" show ?thesis
        by (subst findDataEndIndex.simps) simp
    qed
  next
    case False
    with "1.prems" show ?thesis
      by (subst findDataEndIndex.simps) simp
  qed
qed

lemma findDataEndIndex_beyond:
  "length lines \<le> j \<Longrightarrow> findDataEndIndex lines j = length lines"
  by (subst findDataEndIndex.simps) simp

lemma slice_data_range:
  "slice lines (Suc h) (findDataEndIndex lines (Suc h))
   = takeWhile (\<lambda>l. \<not> isSectionBoundary l) (drop (Suc h) lines)"
proof (cases "Suc h \<le> length lines")
  case True
  then show ?thesis
    using takeWhile_eq_take[of "\<lambda>l. \<not> isSectionBoundary l" "drop (Suc h) lines"]
    by (simp add: slice_def findDataEndIndex_takeWhile)
next
  case False
  then show ?thesis by (simp add: slice_def findDataEndIndex_beyond)
qed

lemma dataLinesOf_spec: "dataLinesOf lines h = spec_dataRows lines h"
proof -
  have 1: "isDataLine = (\<lambda>l. trim l \<noteq> [] \<and> \<not> startsWith (trim l) ''#'')"
    by (simp add: fun_eq_iff isDataLine_def Let_def)
  have 2: "(\<lambda>l. \<not> isSectionBoundary l)
           = (\<lambda>l. \<not> (startsWith (trim l) ''#'' \<and> str_includes l ''Start date:''))"
    by (simp add: fun_eq_iff isSectionBoundary_def)
  have "dataLinesOf lines h
        = filter isDataLine (takeWhile (\<lambda>l. \<not> isSectionBoundary l) (drop (Suc h) lines))"
    using slice_data_range[of lines h] by (simp add: dataLinesOf_def Let_def)
  then show ?thesis
    unfolding spec_dataRows_def spec_dataRange_def 1 2 .
qed

lemma findHeaderIndex_Some:
  "findHeaderIndex sh lines i = Some h \<Longrightarrow>
   i \<le> h \<and> h < length lines \<and> isHeaderLine sh (lines ! h)
   \<and> (\<forall>k. i \<le> k \<and> k < h \<longrightarrow> \<not> isHeaderLine sh (lines ! k))"
proof (induction sh lines i rule: findHeaderIndex.induct)
  case (1 sh lines i)
  show ?case
  proof (cases "i < length lines \<and> \<not> isHeaderLine sh (lines ! i)")
    case True
    with "1.prems" have "findHeaderIndex sh lines (i + 1) = Some h"
      by (subst (asm) findHeaderIndex.simps) simp
    with "1.IH" True have ih: "i + 1 \<le> h \<and> h < length lines \<and> isHeaderLine sh (lines ! h)
       \<and> (\<forall>k. i + 1 \<le> k \<and> k < h \<longrightarrow> \<not> isHeaderLine sh (lines ! k))" by simp
    have "\<not> isHeaderLine sh (lines ! k)" if "i \<le> k" "k < h" for k
      using that ih True by (cases "k = i") auto
    with ih show ?thesis by auto
  next
    case False
    with "1.prems" show ?thesis
      by (subst (asm) findHeaderIndex.simps) (auto split: if_splits)
  qed
qed

lemma findHeaderIndex_None:
  "(\<forall>k. i \<le> k \<and> k < length lines \<longrightarrow> \<not> isHeaderLine sh (lines ! k)) \<Longrightarrow>
   findHeaderIndex sh lines i = None"
proof (induction sh lines i rule: findHeaderIndex.induct)
  case (1 sh lines i)
  then show ?case
    by (subst findHeaderIndex.simps) auto
qed

lemma findHeaderIndex_first:
  assumes "h < length lines" "isHeaderLine sh (lines ! h)" "i \<le> h"
    and "\<forall>k. i \<le> k \<and> k < h \<longrightarrow> \<not> isHeaderLine sh (lines ! k)"
  shows "findHeaderIndex sh lines i = Some h"
  using assms
proof (induction sh lines i rule: findHeaderIndex.induct)
  case (1 sh lines i)
  show ?case
  proof (cases "i = h")
    case True
    with 1 show ?thesis by (subst findHeaderIndex.simps) simp
  next
    case False
    with "1.prems" have "i < h" "\<not> isHeaderLine sh (lines ! i)" "i < length lines" by auto
    moreover from this "1.IH" "1.prems" have "findHeaderIndex sh lines (i + 1) = Some h" by auto
    ultimately show ?thesis by (subst findHeaderIndex.simps) simp
  qed
qed

text \<open>
  C6. With \<open>h\<close> the header line that \<open>parseCSV\<close> selects (the first line that passes the
  header test), the data lines are the lines after \<open>h\<close> up to the end of the file or the
  first comment line containing \<open>Start date:\<close>, without the blank lines and the comment
  lines; the rows are parsed from the header line and these lines only.
\<close>

theorem parseCSV_data_range:
  assumes "findHeaderIndex sectionHeader (split CHR 0x0A content) 0 = Some h"
  shows "dataLinesOf (split CHR 0x0A content) h = spec_dataRows (split CHR 0x0A content) h
    \<and> parseCSV parse content sectionHeader =
        (if spec_dataRows (split CHR 0x0A content) h = [] then []
         else case parse (join (split CHR 0x0A content ! h # spec_dataRows (split CHR 0x0A content) h)) of
                Some records \<Rightarrow> records
              | None \<Rightarrow> map (manualRecord (split CHR 0x0A content ! h))
                          (spec_dataRows (split CHR 0x0A content) h))
    \<and> h < length (split CHR 0x0A content)
    \<and> isHeaderLine sectionHeader (split CHR 0x0A content ! h)
    \<and> (\<forall>k < h. \<not> isHeaderLine sectionHeader (split CHR 0x0A content ! k))"
proof -
  let ?lines = "split CHR 0x0A content"
  have p: "parseCSV parse content sectionHeader =
        (if spec_dataRows ?lines h = [] then []
         else case parse (join (?lines ! h # spec_dataRows ?lines h)) of
                Some records \<Rightarrow> records
              | None \<Rightarrow> map (manualRecord (?lines ! h)) (spec_dataRows ?lines h))"
    using assms by (simp add: parseCSV_def dataLinesOf_spec Let_def)
  from findHeaderIndex_Some[OF assms]
  have "h < length ?lines" "isHeaderLine sectionHeader (?lines ! h)"
    "\<forall>k < h. \<not> isHeaderLine sectionHeader (?lines ! k)" by auto
  with p dataLinesOf_spec[of ?lines h] show ?thesis by blast
qed

theorem parseCSV_data_range_witness:
  "findHeaderIndex (Some ''30 days'') (split CHR 0x0A exampleOverview) 0 = Some 2
   \<and> dataLinesOf (split CHR 0x0A exampleOverview) 2 = [''0,10,5,2'', ''1,12,6,3'', ''2,15,7,1'']
   \<and> map (\<lambda>r. r ''30 days'') (parseCSV failingParse exampleOverview (Some ''30 days''))
       = [Some ''10'', Some ''12'', Some ''15'']"
proof -
  have h: "findHeaderIndex (Some ''30 days'') (split CHR 0x0A exampleOverview) 0 = Some 2"
    by code_simp
  have rows: "spec_dataRows (split CHR 0x0A exampleOverview) 2
              = [''0,10,5,2'', ''1,12,6,3'', ''2,15,7,1'']"
    by code_simp
  have parsed: "map (\<lambda>r. r ''30 days'') (parseCSV failingParse exampleOverview (Some ''30 days''))
                = [Some ''10'', Some ''12'', Some ''15'']"
    by code_simp
  from parseCSV_data_range[OF h, of failingParse] rows parsed h show ?thesis by simp
qed

text \<open>
  C7. \<open>parseCSV\<close> returns the empty list where no line passes the header test, and where
  every line of the data range of the selected header is blank or a comment; the
  structured parser is not consulted in either case.
\<close>

theorem parseCSV_empty:
  "((\<forall>l \<in> set (split CHR 0x0A content). \<not> isHeaderLine sectionHeader l)
      \<longrightarrow> parseCSV parse content sectionHeader = [])
   \<and> (\<forall>h. h < length (split CHR 0x0A content)
          \<and> isHeaderLine sectionHeader (split CHR 0x0A content ! h)
          \<and> (\<forall>k < h. \<not> isHeaderLine sectionHeader (split CHR 0x0A content ! k))
          \<and> (\<forall>l \<in> set (spec_dataRange (split CHR 0x0A content) h).
                trim l = [] \<or> startsWith (trim l) ''#'')
      \<longrightarrow> parseCSV parse content sectionHeader = [])"
proof (intro conjI allI impI)
  assume "\<forall>l \<in> set (split CHR 0x0A content). \<not> isHeaderLine sectionHeader l"
  then have "findHeaderIndex sectionHeader (split CHR 0x0A content) 0 = None"
    by (intro findHeaderIndex_None) auto
  then show "parseCSV parse content sectionHeader = []"
    by (simp add: parseCSV_def)
next
  fix h
  let ?lines = "split CHR 0x0A content"
  assume a: "h < length ?lines \<and> isHeaderLine sectionHeader (?lines ! h)
          \<and> (\<forall>k < h. \<not> isHeaderLine sectionHeader (?lines ! k))
          \<and> (\<forall>l \<in> set (spec_dataRange ?lines h). trim l = [] \<or> startsWith (trim l) ''#'')"
  then have "findHeaderIndex sectionHeader ?lines 0 = Some h"
    by (intro findHeaderIndex_first) auto
  moreover from a have "spec_dataRows ?lines h = []"
    by (auto simp: spec_dataRows_def filter_empty_conv)
  ultimately show "parseCSV parse content sectionHeader = []"
    by (simp add: parseCSV_def dataLinesOf_spec)
qed

theorem parseCSV_empty_witness:
  "parseCSV failingParse exampleNoHeader (Some ''30 days'') = []
   \<and> parseCSV failingParse exampleNoRows (Some ''30 days'') = []"
proof -
  have 1: "\<forall>l \<in> set (split CHR 0x0A exampleNoHeader). \<not> isHeaderLine (Some ''30 days'') l"
    by code_simp
  have 2: "0 < length (split CHR 0x0A exampleNoRows)
     \<and> isHeaderLine (Some ''30 days'') (split CHR 0x0A exampleNoRows ! 0)
     \<and> (\<forall>k < (0::nat). \<not> isHeaderLine (Some ''30 days'') (split CHR 0x0A exampleNoRows ! k))
     \<and> (\<forall>l \<in> set (spec_dataRange (split CHR 0x0A exampleNoRows) 0).
           trim l = [] \<or> startsWith (trim l) ''#'')"
  proof (intro conjI)
    show "0 < length (split CHR 0x0A exampleNoRows)" by code_simp
    show "isHeaderLine (Some ''30 days'') (split CHR 0x0A exampleNoRows ! 0)" by code_simp
    show "\<forall>k < (0::nat). \<not> isHeaderLine (Some ''30 days'') (split CHR 0x0A exampleNoRows ! k)"
      by simp
    show "\<forall>l \<in> set (spec_dataRange (split CHR 0x0A exampleNoRows) 0).
           trim l = [] \<or> startsWith (trim l) ''#''" by code_simp
  qed
  from parseCSV_empty[of exampleNoHeader "Some ''30 days''" failingParse] 1
  have a: "parseCSV failingParse exampleNoHeader (Some ''30 days'') = []" by blast
  from parseCSV_empty[of exampleNoRows "Some ''30 days''" failingParse] 2
  have b: "parseCSV failingParse exampleNoRows (Some ''30 days'') = []" by blast
  from a b show ?thesis by simp
qed

section \<open>Properties of the loaders\<close>











subsection \<open>The overview loader\<close>

lemma length_dailyRecords:
  "length (dailyRecords startDate allDates records) = length (keptRows records)"
  by (simp add: dailyRecords_def keptRows_def Let_def)

lemma date_dailyRecords:
  assumes "i < length (keptRows records)"
  shows "date (dailyRecords startDate allDates records ! i)
         = formatDate (if i < length allDates then allDates ! i else startDate)"
  using assms by (simp add: dailyRecords_def keptRows_def Let_def)

lemma nth_eachDayOfInterval:
  "(if i < length (eachDayOfInterval s e) then eachDayOfInterval s e ! i else s)
   = (if int i \<le> e - s then s + int i else s)"
  by (auto simp: eachDayOfInterval_def)

lemma map_date_dailyRecords:
  "map date (dailyRecords s (eachDayOfInterval s e) records)
   = map (\<lambda>i. formatDate (if int i \<le> e - s then s + int i else s))
       [0..<length (keptRows records)]"
  by (rule nth_equalityI)
     (simp_all add: length_dailyRecords date_dailyRecords nth_eachDayOfInterval)

lemma loadOverviewData_Inr:
  assumes "findCSVFile (entries fs) ''Firebase_overview.csv'' = Some filePath"
    and "matchDate ''Start date: '' (readFile fs filePath) = Some startDateStr"
    and "matchDate ''End date: '' (readFile fs filePath) = Some endDateStr"
    and "parseISO (isoString startDateStr) = Some startDate"
    and "parseISO (isoString endDateStr) = Some endDate"
    and "startDate \<le> endDate"
  shows "loadOverviewData parse fs
         = Inr (dailyRecords startDate (eachDayOfInterval startDate endDate)
                  (parseCSV parse (readFile fs filePath) (Some ''30 days'')))"
  using assms by (simp add: loadOverviewData_def Let_def)

text \<open>
  C1, as amended. For an overview file whose \<open>Start date:\<close> and \<open>End date:\<close> comments
  denote a valid range, \<open>loadOverviewData\<close> returns one record for every kept row, however
  many days the range has; record \<open>i\<close> carries the \<open>i\<close>-th calendar day of the range
  while \<open>i\<close> is within the range and the start date beyond it, so that every date is a
  day of the range.
\<close>

theorem loadOverviewData_dates:
  assumes "findCSVFile (entries fs) ''Firebase_overview.csv'' = Some filePath"
    and "matchDate ''Start date: '' (readFile fs filePath) = Some startDateStr"
    and "matchDate ''End date: '' (readFile fs filePath) = Some endDateStr"
    and "parseISO (isoString startDateStr) = Some startDate"
    and "parseISO (isoString endDateStr) = Some endDate"
    and "startDate \<le> endDate"
  shows "\<exists>ds. loadOverviewData parse fs = Inr ds
     \<and> length ds = length (keptRows (parseCSV parse (readFile fs filePath) (Some ''30 days'')))
     \<and> (\<forall>i < length ds.
           date (ds ! i) = formatDate (if int i \<le> endDate - startDate then startDate + int i
                                        else startDate))
     \<and> (\<forall>d \<in> set ds. \<exists>k. startDate \<le> k \<and> k \<le> endDate \<and> date d = formatDate k)"
proof -
  let ?records = "parseCSV parse (readFile fs filePath) (Some ''30 days'')"
  let ?ds = "dailyRecords startDate (eachDayOfInterval startDate endDate) ?records"
  have r: "loadOverviewData parse fs = Inr ?ds"
    using assms by (rule loadOverviewData_Inr)
  have len: "length ?ds = length (keptRows ?records)"
    by (rule length_dailyRecords)
  have nth: "date (?ds ! i) = formatDate (if int i \<le> endDate - startDate then startDate + int i
                                        else startDate)" if "i < length ?ds" for i
    using that date_dailyRecords[of i ?records startDate "eachDayOfInterval startDate endDate"]
      nth_eachDayOfInterval[of i startDate endDate] len by simp
  have "\<exists>k. startDate \<le> k \<and> k \<le> endDate \<and> date d = formatDate k" if "d \<in> set ?ds" for d
  proof -
    from that obtain i where i: "i < length ?ds" "d = ?ds ! i"
      by (auto simp: in_set_conv_nth)
    let ?k = "if int i \<le> endDate - startDate then startDate + int i else startDate"
    have "startDate \<le> ?k \<and> ?k \<le> endDate" using assms(6) by auto
    with nth[OF i(1)] i(2) show ?thesis by blast
  qed
  with r len nth show ?thesis by blast
qed


text \<open>
  As the specification states it, the property fails: a range of one day with two data rows gives two records,
  both dated with the start date.
\<close>

theorem loadOverviewData_count_counterexample:
  "matchDate ''Start date: '' (readFile exampleOneDayFolder ''Firebase_overview.csv'') = Some ''20240101''
   \<and> matchDate ''End date: '' (readFile exampleOneDayFolder ''Firebase_overview.csv'') = Some ''20240101''
   \<and> map_sum id (map date) (loadOverviewData failingParse exampleOneDayFolder)
       = Inr [''2024-01-01'', ''2024-01-01'']"
proof -
  have 1: "findCSVFile (entries exampleOneDayFolder) ''Firebase_overview.csv''
           = Some ''Firebase_overview.csv''" by code_simp
  have 2: "matchDate ''Start date: '' (readFile exampleOneDayFolder ''Firebase_overview.csv'')
           = Some ''20240101''" by code_simp
  have 3: "matchDate ''End date: '' (readFile exampleOneDayFolder ''Firebase_overview.csv'')
           = Some ''20240101''" by code_simp
  have 4: "parseISO (isoString ''20240101'') = Some 19723" by code_simp
  have 5: "(19723 :: int) \<le> 19723" by simp
  have n: "length (keptRows (parseCSV failingParse
              (readFile exampleOneDayFolder ''Firebase_overview.csv'') (Some ''30 days''))) = 2"
    by code_simp
  have f: "formatDate 19723 = ''2024-01-01''" by code_simp
  have u: "[0..<2] = [0, Suc 0]" by (simp add: numeral_2_eq_2)
  have m: "map_sum id (map date) (loadOverviewData failingParse exampleOneDayFolder)
           = Inr [''2024-01-01'', ''2024-01-01'']"
    unfolding loadOverviewData_Inr[OF 1 2 3 4 4 5]
    by (simp add: map_date_dailyRecords n u f)
  from 2 3 m show ?thesis by (intro conjI)
qed


text \<open>The scenario of the specification: three days, three rows.\<close>

lemma map_counts_dailyRecords:
  "map activeUsers30Days (dailyRecords s allDates records)
   = map (\<lambda>r. parseInt (valueOr r ''30 days'' ''0'')) (keptRows records)"
  by (rule nth_equalityI) (simp_all add: dailyRecords_def keptRows_def Let_def)

theorem loadOverviewData_dates_witness:
  "\<exists>ds. loadOverviewData failingParse exampleOverviewFolder = Inr ds
      \<and> map date ds = [''2024-01-01'', ''2024-01-02'', ''2024-01-03'']
      \<and> map activeUsers30Days ds = [Fin 10, Fin 12, Fin 15]"
proof -
  have 1: "findCSVFile (entries exampleOverviewFolder) ''Firebase_overview.csv''
           = Some ''Firebase_overview.csv''" by code_simp
  have 2: "matchDate ''Start date: '' (readFile exampleOverviewFolder ''Firebase_overview.csv'')
           = Some ''20240101''" by code_simp
  have 3: "matchDate ''End date: '' (readFile exampleOverviewFolder ''Firebase_overview.csv'')
           = Some ''20240103''" by code_simp
  have 4: "parseISO (isoString ''20240101'') = Some 19723" by code_simp
  have 5: "parseISO (isoString ''20240103'') = Some 19725" by code_simp
  have 6: "(19723 :: int) \<le> 19725" by simp
  have n: "length (keptRows (parseCSV failingParse
              (readFile exampleOverviewFolder ''Firebase_overview.csv'') (Some ''30 days''))) = 3"
    by code_simp
  have c: "map (\<lambda>r. parseInt (valueOr r ''30 days'' ''0''))
             (keptRows (parseCSV failingParse
                (readFile exampleOverviewFolder ''Firebase_overview.csv'') (Some ''30 days'')))
           = [Fin 10, Fin 12, Fin 15]"
    by code_simp
  have f: "formatDate 19723 = ''2024-01-01''" "formatDate 19724 = ''2024-01-02''"
    "formatDate 19725 = ''2024-01-03''" by code_simp+
  have u: "[0..<3] = [0, Suc 0, Suc (Suc 0)]" by (simp add: numeral_3_eq_3)
  from loadOverviewData_dates[OF 1 2 3 4 5 6, of failingParse]
  obtain ds where ds: "loadOverviewData failingParse exampleOverviewFolder = Inr ds"
    and len: "length ds = 3"
    and nth: "\<forall>i < length ds. date (ds ! i)
                = formatDate (if int i \<le> 19725 - 19723 then 19723 + int i else 19723)"
    using n by auto
  have "map date ds = map (\<lambda>i. date (ds ! i)) [0..<length ds]"
    by (rule nth_equalityI) simp_all
  also have "\<dots> = map (\<lambda>i. formatDate (if int i \<le> 19725 - 19723 then 19723 + int i else 19723))
                     [0..<length ds]"
    using nth by simp
  also have "\<dots> = [''2024-01-01'', ''2024-01-02'', ''2024-01-03'']"
    by (simp add: len u f)
  finally have dates: "map date ds = [''2024-01-01'', ''2024-01-02'', ''2024-01-03'']" .
  from ds have "ds = dailyRecords 19723 (eachDayOfInterval 19723 19725)
                  (parseCSV failingParse
                    (readFile exampleOverviewFolder ''Firebase_overview.csv'') (Some ''30 days''))"
    unfolding loadOverviewData_Inr[OF 1 2 3 4 5 6] by simp
  then have counts: "map activeUsers30Days ds = [Fin 10, Fin 12, Fin 15]"
    by (simp only: map_counts_dailyRecords c)
  from ds dates counts
  have "loadOverviewData failingParse exampleOverviewFolder = Inr ds
      \<and> map date ds = [''2024-01-01'', ''2024-01-02'', ''2024-01-03'']
      \<and> map activeUsers30Days ds = [Fin 10, Fin 12, Fin 15]"
    by (intro conjI)
  then show ?thesis by (rule exI)
qed

section \<open>Properties of the feature aggregation\<close>

subsection \<open>The insertion-ordered map\<close>

lemma Map_get_Map_set:
  "Map_get (Map_set k v m) k' = (if k' = k then Some v else Map_get m k')"
  by (induction m) (auto simp: Map_get_def)

lemma keys_Map_set:
  "map fst (Map_set k v m) = (if k \<in> set (map fst m) then map fst m else map fst m @ [k])"
  by (induction m) (auto split: if_splits)

lemma distinct_Map_set:
  "distinct (map fst m) \<Longrightarrow> distinct (map fst (Map_set k v m))"
  by (simp add: keys_Map_set)

lemma set_Map_set_subset: "set (Map_set k v m) \<subseteq> insert (k, v) (set m)"
  by (induction m) (auto split: if_splits)

lemma Map_get_Some_iff:
  "distinct (map fst m) \<Longrightarrow> Map_get m k = Some v \<longleftrightarrow> (k, v) \<in> set m"
  by (simp add: Map_get_def)

lemma Map_get_None_iff: "Map_get m k = None \<longleftrightarrow> k \<notin> fst ` set m"
  by (simp add: Map_get_def map_of_eq_None_iff)

subsection \<open>The merge step\<close>

lemma mergeInto_fields:
  "usageCount (mergeInto event existing) = js_add (usageCount existing) (eventCount event)"
  "uniqueUsers (mergeInto event existing) = Math_max (uniqueUsers existing) (totalUsers event)"
  "avgUsagePerUser (mergeInto event existing)
     = js_div (js_add (usageCount existing) (eventCount event))
         (js_or (Math_max (uniqueUsers existing) (totalUsers event)) (Fin 1))"
  "featureName (mergeInto event existing) = featureName existing"
  "Feature.more (mergeInto event existing) = Feature.more existing"
  by (simp_all add: mergeInto_def Let_def)

lemma mergeInto_detail_fields:
  fixes existing :: FeatureUsageDetail
  shows "featureType (mergeInto event existing) = featureType existing"
    "engagementTime (mergeInto event existing) = engagementTime existing"
    "relatedScreens (mergeInto event existing) = relatedScreens existing"
  by (simp_all add: mergeInto_def Let_def)

lemma mergeEvent_existing:
  "Map_get m (eventName event) = Some existing \<Longrightarrow>
   mergeEvent event m = Map_set (eventName event) (mergeInto event existing) m"
  by (simp add: mergeEvent_def Let_def)

lemma mergeEvent_keeps:
  assumes "Map_get m k = Some f"
  shows "\<exists>f'. Map_get (mergeEvent event m) k = Some f'
           \<and> featureName f' = featureName f \<and> featureType f' = featureType f
           \<and> engagementTime f' = engagementTime f \<and> relatedScreens f' = relatedScreens f"
proof (cases "Map_get m (eventName event)")
  case None
  with assms have "k \<noteq> eventName event" by auto
  with assms None show ?thesis
    by (simp add: mergeEvent_def Let_def Map_get_Map_set)
next
  case (Some existing)
  with assms show ?thesis
    by (cases "k = eventName event")
       (simp_all add: mergeEvent_existing Map_get_Map_set mergeInto_fields mergeInto_detail_fields)
qed

lemma fold_mergeEvent_keeps:
  assumes "Map_get m k = Some f"
  shows "\<exists>f'. Map_get (fold mergeEvent evs m) k = Some f'
           \<and> featureName f' = featureName f \<and> featureType f' = featureType f
           \<and> engagementTime f' = engagementTime f \<and> relatedScreens f' = relatedScreens f"
  using assms
proof (induction evs arbitrary: m f)
  case Nil
  then show ?case by simp
next
  case (Cons e evs)
  from mergeEvent_keeps[OF Cons.prems, of e] obtain f1 where
    f1: "Map_get (mergeEvent e m) k = Some f1" "featureName f1 = featureName f"
      "featureType f1 = featureType f" "engagementTime f1 = engagementTime f"
      "relatedScreens f1 = relatedScreens f" by blast
  from Cons.IH[OF f1(1)] f1 show ?case by auto
qed

subsection \<open>Seeding from the screens\<close>

lemma seedScreen_entries:
  assumes "\<forall>entry \<in> set m. seededFrom screenViews entry" "screen \<in> set screenViews"
  shows "\<forall>entry \<in> set (seedScreen screen m). seededFrom screenViews entry"
proof (cases "isFeatureScreen screen")
  case True
  have "seededFrom screenViews (screenClass screen,
          \<lparr> featureName = screenClass screen, usageCount = views screen,
            uniqueUsers = activeUsers screen,
            avgUsagePerUser = viewsPerActiveUser screen, featureType = TScreen,
            engagementTime = Some (avgEngagementTime screen), relatedScreens = None \<rparr>)"
    using True assms(2) by (auto simp: seededFrom_def)
  with assms(1) True show ?thesis
    using set_Map_set_subset by (fastforce simp: seedScreen_def)
next
  case False
  with assms(1) show ?thesis by (simp add: seedScreen_def)
qed

lemma fold_seedScreen_entries:
  assumes "\<forall>entry \<in> set m. seededFrom screenViews entry" "set screens \<subseteq> set screenViews"
  shows "\<forall>entry \<in> set (fold seedScreen screens m). seededFrom screenViews entry"
  using assms
proof (induction screens arbitrary: m)
  case Nil
  then show ?case by simp
next
  case (Cons s screens)
  from Cons.prems have "\<forall>entry \<in> set (seedScreen s m). seededFrom screenViews entry"
    by (intro seedScreen_entries) auto
  with Cons show ?case by simp
qed

lemma seedScreen_distinct:
  "distinct (map fst m) \<Longrightarrow> distinct (map fst (seedScreen screen m))"
  by (simp add: seedScreen_def distinct_Map_set)

lemma fold_seedScreen_distinct:
  "distinct (map fst m) \<Longrightarrow> distinct (map fst (fold seedScreen screens m))"
  by (induction screens arbitrary: m) (simp_all add: seedScreen_distinct)

lemma seeded_entry:
  assumes "Map_get (fold seedScreen screenViews []) k = Some f"
  shows "seededFrom screenViews (k, f)"
proof -
  have "distinct (map fst (fold seedScreen screenViews []))"
    by (rule fold_seedScreen_distinct) simp
  with assms have "(k, f) \<in> set (fold seedScreen screenViews [])"
    by (simp add: Map_get_Some_iff)
  moreover have "\<forall>entry \<in> set (fold seedScreen screenViews []). seededFrom screenViews entry"
    by (rule fold_seedScreen_entries) simp_all
  ultimately show ?thesis by blast
qed

subsection \<open>Rounding keeps the integers up to \<open>2 ^ 53\<close>\<close>

lemma roundHalfEven_of_int [simp]: "roundHalfEven (of_int n) = n"
  by (simp add: roundHalfEven_def)

lemma round64_safe_pos:
  fixes n :: int
  assumes "1 \<le> n" "n \<le> 2 ^ 53"
  shows "round64 (of_int n) = Fin (of_int n)"
proof -
  have b: "2 ^ nat (bitlen n - 1) \<le> n" "n < 2 ^ nat (bitlen n)"
    using bitlen_bounds[of n] assms(1) by auto
  have bl1: "1 \<le> bitlen n" using assms(1) bitlen_nonneg[of n] bitlen_eq_zero_iff[of n]
    by (cases "bitlen n = 0") auto
  have "bitlen n \<le> 54"
  proof (rule ccontr)
    assume "\<not> bitlen n \<le> 54"
    then have "55 \<le> bitlen n" by simp
    then have "(2::int) ^ 54 \<le> 2 ^ nat (bitlen n - 1)"
      by (intro power_increasing) auto
    with b(1) assms(2) show False by simp
  qed
  define e where "e = bitlen n - 1"
  have e: "0 \<le> e" "e \<le> 53" using bl1 \<open>bitlen n \<le> 54\<close> by (auto simp: e_def)
  have fl: "floorLog2 (of_int n) = e"
    using assms(1) by (simp add: floorLog2_def e_def)
  have p: "max (e - 52) (- 1074) = e - 52" using e by simp
  have "\<exists>k. (of_int n :: rat) / 2 powi (e - 52) = of_int k \<and> (e = 53 \<longrightarrow> k = 2 ^ 52)"
  proof (cases "e \<le> 52")
    case True
    then have "(2::rat) powi (e - 52) = 1 / 2 ^ nat (52 - e)"
      by (simp add: power_int_def divide_simps)
    then have k1: "(of_int n :: rat) / 2 powi (e - 52) = of_int (n * 2 ^ nat (52 - e))"
      by simp
    from True have "e \<noteq> 53" by simp
    with k1 show ?thesis by blast
  next
    case False
    with e have e53: "e = 53" by simp
    with b(1) assms(2) have "n = 2 ^ 53" by (simp add: e_def)
    then have "(of_int n :: rat) / 2 powi (e - 52) = of_int (2 ^ 52)"
      by (simp add: e53)
    then show ?thesis by blast
  qed
  then obtain k where k: "(of_int n :: rat) / 2 powi (e - 52) = of_int k"
    and k53: "e = 53 \<longrightarrow> k = 2 ^ 52" by blast
  have pz: "(2::rat) powi (e - 52) \<noteq> 0" by simp
  from k pz have v: "of_int k * (2::rat) powi (e - 52) = of_int n"
    by (simp add: field_simps)
  have no: "\<not> 1024 \<le> e" "e \<noteq> 1023" using e by simp_all
  have nz: "(of_int n :: rat) \<noteq> 0" "\<bar>of_int n :: rat\<bar> = of_int n" "sgn (of_int n :: rat) = 1"
    using assms(1) by auto
  show ?thesis
    unfolding round64_def Let_def nz(2) fl p k roundHalfEven_of_int v
    using nz no by simp
qed

lemma round64_minus:
  "round64 (- q) = (case round64 q of Fin v \<Rightarrow> Fin (- v)
     | PosInfinity \<Rightarrow> NegInfinity | NegInfinity \<Rightarrow> PosInfinity | NaN \<Rightarrow> NaN)"
  by (auto simp: round64_def Let_def signedInfinity_def sgn_if)

lemma round64_safe:
  assumes "q = of_int \<lfloor>q\<rfloor>" "\<bar>q\<bar> \<le> 2 ^ 53"
  shows "round64 q = Fin q"
proof -
  define n where "n = \<lfloor>q\<rfloor>"
  have q: "q = of_int n" using assms(1) by (simp add: n_def)
  have bound: "\<bar>n\<bar> \<le> 2 ^ 53"
  proof -
    from assms(2) q have "\<bar>of_int n :: rat\<bar> \<le> of_int (2 ^ 53)" by simp
    then have "(of_int \<bar>n\<bar> :: rat) \<le> of_int (2 ^ 53)" by simp
    then show ?thesis by (simp only: of_int_le_iff)
  qed
  consider "n = 0" | "1 \<le> n" | "n \<le> - 1" by linarith
  then show ?thesis
  proof cases
    case 1
    then show ?thesis by (simp add: q round64_def)
  next
    case 2
    with bound show ?thesis unfolding q by (intro round64_safe_pos) auto
  next
    case 3
    with bound have "round64 (of_int (- n)) = Fin (of_int (- n))"
      by (intro round64_safe_pos) auto
    then have "round64 (- (- of_int n)) = Fin (of_int n)"
      by (subst round64_minus) simp
    then show ?thesis by (simp add: q)
  qed
qed

lemma count_or_max:
  assumes "isInteger a" "isCount b"
  shows "js_or (Math_max a b) (Fin 1) = Math_max (Math_max a b) (Fin 1)"
proof -
  from assms obtain p q where a: "a = Fin p" "p = of_int \<lfloor>p\<rfloor>"
    and b: "b = Fin q" "q = of_int \<lfloor>q\<rfloor>" "0 \<le> q"
    by (auto simp: isInteger_def isCount_def split: number.splits)
  let ?m = "max p q"
  have mi: "?m = of_int \<lfloor>?m\<rfloor>" using a(2) b(2) by (auto simp: max_def)
  have m0: "0 \<le> ?m" using b(3) by auto
  have "?m = 0 \<or> 1 \<le> ?m"
  proof -
    from m0 mi have "0 \<le> \<lfloor>?m\<rfloor>" by simp
    then have "\<lfloor>?m\<rfloor> = 0 \<or> 1 \<le> \<lfloor>?m\<rfloor>" by linarith
    then show ?thesis
    proof
      assume "\<lfloor>?m\<rfloor> = 0" with mi show ?thesis by simp
    next
      assume "1 \<le> \<lfloor>?m\<rfloor>"
      then have "(1::rat) \<le> of_int \<lfloor>?m\<rfloor>" by linarith
      with mi show ?thesis by simp
    qed
  qed
  then show ?thesis using a(1) b(1) by (auto simp: js_or_def truthy_def)
qed

lemma js_or_one: "js_or x (Fin 1) = (if x = NaN \<or> x = Fin 0 then Fin 1 else x)"
  by (simp add: js_or_def truthy_def)

text \<open>
  C4, as amended. An event whose name is the name of a screen-seeded entry is merged into
  that entry, at whatever point of the event loop: the usage count becomes the sum of the
  old usage count and the event count, the unique users the maximum of the two, and the
  average the usage count divided by \<open>uniqueUsers || 1\<close>, that is by the unique users
  unless they are zero or \<open>NaN\<close> and by one then. This is the usage count divided by
  \<open>max(uniqueUsers, 1)\<close> where the users of the entry are an integer and the users of the
  event a non-negative integer. The type of the entry stays \<open>screen\<close>.
\<close>

theorem merge_into_screen_entry:
  assumes "Map_get (fold seedScreen screenViews []) (eventName event) = Some seeded"
  shows "\<exists>existing merged.
      Map_get (fold mergeEvent earlier (fold seedScreen screenViews [])) (eventName event)
        = Some existing
    \<and> Map_get (mergeEvent event (fold mergeEvent earlier (fold seedScreen screenViews [])))
        (eventName event) = Some merged
    \<and> usageCount merged = js_add (usageCount existing) (eventCount event)
    \<and> uniqueUsers merged = Math_max (uniqueUsers existing) (totalUsers event)
    \<and> avgUsagePerUser merged
        = js_div (usageCount merged)
            (if uniqueUsers merged = NaN \<or> uniqueUsers merged = Fin 0 then Fin 1
             else uniqueUsers merged)
    \<and> (isInteger (uniqueUsers existing) \<and> isCount (totalUsers event) \<longrightarrow>
         avgUsagePerUser merged
           = js_div (usageCount merged) (Math_max (uniqueUsers merged) (Fin 1)))
    \<and> featureType existing = TScreen \<and> featureType merged = TScreen"
proof -
  let ?m = "fold mergeEvent earlier (fold seedScreen screenViews [])"
  from seeded_entry[OF assms] have ty: "featureType seeded = TScreen"
    by (auto simp: seededFrom_def)
  from fold_mergeEvent_keeps[OF assms, of earlier] obtain existing where
    ex: "Map_get ?m (eventName event) = Some existing" "featureType existing = featureType seeded"
    by blast
  let ?merged = "mergeInto event existing"
  have g: "Map_get (mergeEvent event ?m) (eventName event) = Some ?merged"
    using ex(1) by (simp add: mergeEvent_existing Map_get_Map_set)
  have avg0: "avgUsagePerUser ?merged
             = js_div (usageCount ?merged) (js_or (uniqueUsers ?merged) (Fin 1))"
    by (simp add: mergeInto_fields)
  have avg: "avgUsagePerUser ?merged
        = js_div (usageCount ?merged)
            (if uniqueUsers ?merged = NaN \<or> uniqueUsers ?merged = Fin 0 then Fin 1
             else uniqueUsers ?merged)"
    unfolding avg0 js_or_one ..
  have mx: "isInteger (uniqueUsers existing) \<and> isCount (totalUsers event) \<longrightarrow>
         avgUsagePerUser ?merged
           = js_div (usageCount ?merged) (Math_max (uniqueUsers ?merged) (Fin 1))"
    using avg0 by (simp add: mergeInto_fields count_or_max)
  have u: "usageCount ?merged = js_add (usageCount existing) (eventCount event)"
    and q: "uniqueUsers ?merged = Math_max (uniqueUsers existing) (totalUsers event)"
    and t: "featureType existing = TScreen" "featureType ?merged = TScreen"
    using ex(2) ty by (simp_all add: mergeInto_fields mergeInto_detail_fields)
  from ex(1) g u q avg mx t
  have "Map_get ?m (eventName event) = Some existing
    \<and> Map_get (mergeEvent event ?m) (eventName event) = Some ?merged
    \<and> usageCount ?merged = js_add (usageCount existing) (eventCount event)
    \<and> uniqueUsers ?merged = Math_max (uniqueUsers existing) (totalUsers event)
    \<and> avgUsagePerUser ?merged
        = js_div (usageCount ?merged)
            (if uniqueUsers ?merged = NaN \<or> uniqueUsers ?merged = Fin 0 then Fin 1
             else uniqueUsers ?merged)
    \<and> (isInteger (uniqueUsers existing) \<and> isCount (totalUsers event) \<longrightarrow>
         avgUsagePerUser ?merged
           = js_div (usageCount ?merged) (Math_max (uniqueUsers ?merged) (Fin 1)))
    \<and> featureType existing = TScreen \<and> featureType ?merged = TScreen"
    by (intro conjI)
  then show ?thesis by blast
qed

text \<open>
  As the specification states it, the property fails: with the users \<open>-5\<close> and \<open>-3\<close>
  the average is \<open>15 / -3\<close>, not \<open>15 / max(-3, 1)\<close>; with \<open>NaN\<close> users on the event it
  is \<open>15 / 1\<close>, not \<open>15 / max(NaN, 1)\<close>.
\<close>

theorem merge_divisor_counterexample:
  "map_option avgUsagePerUser (Map_get exampleNegativeUsers ''Home'') = Some (Fin (- 5))
   \<and> map_option (\<lambda>f. js_div (usageCount f) (Math_max (uniqueUsers f) (Fin 1)))
        (Map_get exampleNegativeUsers ''Home'') = Some (Fin 15)
   \<and> map_option avgUsagePerUser (Map_get exampleNaNUsers ''Home'') = Some (Fin 15)
   \<and> map_option (\<lambda>f. js_div (usageCount f) (Math_max (uniqueUsers f) (Fin 1)))
        (Map_get exampleNaNUsers ''Home'') = Some NaN"
  by code_simp


lemma exScreen_Home_seed_256:
  "Map_get (fold seedScreen [exScreen ''Home'' 500 256] []) (eventName (exEvent ''Home'' 12 200))
   = Some \<lparr> featureName = ''Home'', usageCount = Fin 500, uniqueUsers = Fin 256,
            avgUsagePerUser = Fin (500 / 256), featureType = TScreen,
            engagementTime = Some (Fin (452 / 10)), relatedScreens = None \<rparr>"
  by (simp add: exScreen_def exEvent_def seedScreen_def isFeatureScreen_def Map_get_def)

theorem merge_into_screen_entry_witness:
  "\<exists>merged.
      Map_get (mergeEvent (exEvent ''Home'' 12 200) (fold seedScreen [exScreen ''Home'' 500 256] []))
        ''Home'' = Some merged
    \<and> usageCount merged = Fin 512 \<and> uniqueUsers merged = Fin 256
    \<and> avgUsagePerUser merged = Fin 2 \<and> featureType merged = TScreen"
proof -
  let ?seeded = "\<lparr> featureName = ''Home'', usageCount = Fin 500, uniqueUsers = Fin 256,
            avgUsagePerUser = Fin (500 / 256), featureType = TScreen,
            engagementTime = Some (Fin (452 / 10)), relatedScreens = None \<rparr>"
  have n: "eventName (exEvent ''Home'' 12 200) = ''Home''"
    and t: "totalUsers (exEvent ''Home'' 12 200) = Fin 200"
    and ec: "eventCount (exEvent ''Home'' 12 200) = Fin 12"
    by (simp_all add: exEvent_def)
  have i: "isInteger (Fin 256)" "isCount (Fin 200)"
    by (simp_all add: isInteger_def isCount_def)
  have s: "js_add (Fin 500) (Fin 12) = Fin 512" by code_simp
  have d: "js_div (Fin 512) (Math_max (Fin 256) (Fin 1)) = Fin 2" by code_simp
  from merge_into_screen_entry[OF exScreen_Home_seed_256, of "[]"]
  obtain existing merged where
    e: "Map_get (fold seedScreen [exScreen ''Home'' 500 256] [])
          (eventName (exEvent ''Home'' 12 200)) = Some existing"
    and m: "Map_get (mergeEvent (exEvent ''Home'' 12 200)
              (fold seedScreen [exScreen ''Home'' 500 256] []))
          (eventName (exEvent ''Home'' 12 200)) = Some merged"
    and u: "usageCount merged = js_add (usageCount existing) (eventCount (exEvent ''Home'' 12 200))"
    and q: "uniqueUsers merged
            = Math_max (uniqueUsers existing) (totalUsers (exEvent ''Home'' 12 200))"
    and a: "isInteger (uniqueUsers existing) \<and> isCount (totalUsers (exEvent ''Home'' 12 200)) \<longrightarrow>
         avgUsagePerUser merged
           = js_div (usageCount merged) (Math_max (uniqueUsers merged) (Fin 1))"
    and ty: "featureType merged = TScreen"
    by auto
  from e exScreen_Home_seed_256 have ex: "existing = ?seeded" by simp
  from u ex ec s have u': "usageCount merged = Fin 512" by simp
  from q ex t have q': "uniqueUsers merged = Fin 256" by simp
  from a ex t i have "avgUsagePerUser merged
           = js_div (usageCount merged) (Math_max (uniqueUsers merged) (Fin 1))" by simp
  with u' q' d have a': "avgUsagePerUser merged = Fin 2" by simp
  from m n u' q' a' ty
  have "Map_get (mergeEvent (exEvent ''Home'' 12 200) (fold seedScreen [exScreen ''Home'' 500 256] []))
        ''Home'' = Some merged
    \<and> usageCount merged = Fin 512 \<and> uniqueUsers merged = Fin 256
    \<and> avgUsagePerUser merged = Fin 2 \<and> featureType merged = TScreen"
    by simp
  then show ?thesis by (rule exI)
qed

lemma exScreen_Home_seed:
  "Map_get (fold seedScreen [exScreen ''Home'' 500 300] []) (eventName (exEvent ''Home'' 7 400))
   = Some \<lparr> featureName = ''Home'', usageCount = Fin 500, uniqueUsers = Fin 300,
            avgUsagePerUser = Fin (500 / 300), featureType = TScreen,
            engagementTime = Some (Fin (452 / 10)), relatedScreens = None \<rparr>"
  by (simp add: exScreen_def exEvent_def seedScreen_def isFeatureScreen_def Map_get_def)

lemma mergeEvent_other_keys:
  assumes "Map_get m (eventName event) = Some existing"
  shows "map fst (mergeEvent event m) = map fst m"
    and "k \<noteq> eventName event \<Longrightarrow> Map_get (mergeEvent event m) k = Map_get m k"
proof -
  from assms have "eventName event \<in> set (map fst m)"
    by (auto simp: Map_get_def dest: map_of_SomeD intro: rev_image_eqI)
  with assms show "map fst (mergeEvent event m) = map fst m"
    by (simp add: mergeEvent_existing keys_Map_set)
  show "k \<noteq> eventName event \<Longrightarrow> Map_get (mergeEvent event m) k = Map_get m k"
    using assms by (simp add: mergeEvent_existing Map_get_Map_set)
qed

text \<open>
  C10. The merge of an event into a screen-seeded entry changes the usage count, the
  unique users and the average of that entry and nothing else: its name, type, engagement
  time and related screens are those of the seed, the keys of the map keep their order,
  and no other entry changes.
\<close>

theorem merge_frame:
  assumes "Map_get (fold seedScreen screenViews []) (eventName event) = Some seeded"
  shows "\<exists>existing merged.
      Map_get (fold mergeEvent earlier (fold seedScreen screenViews [])) (eventName event)
        = Some existing
    \<and> Map_get (mergeEvent event (fold mergeEvent earlier (fold seedScreen screenViews [])))
        (eventName event) = Some merged
    \<and> merged = existing\<lparr> usageCount := usageCount merged, uniqueUsers := uniqueUsers merged,
                           avgUsagePerUser := avgUsagePerUser merged \<rparr>
    \<and> featureName merged = featureName seeded \<and> featureName seeded = eventName event
    \<and> featureType merged = featureType seeded
    \<and> engagementTime merged = engagementTime seeded
    \<and> relatedScreens merged = relatedScreens seeded
    \<and> (\<exists>screen \<in> set screenViews. isFeatureScreen screen
          \<and> featureName merged = screenClass screen
          \<and> engagementTime merged = Some (avgEngagementTime screen))
    \<and> map fst (mergeEvent event (fold mergeEvent earlier (fold seedScreen screenViews [])))
        = map fst (fold mergeEvent earlier (fold seedScreen screenViews []))
    \<and> (\<forall>k. k \<noteq> eventName event \<longrightarrow>
          Map_get (mergeEvent event (fold mergeEvent earlier (fold seedScreen screenViews []))) k
          = Map_get (fold mergeEvent earlier (fold seedScreen screenViews [])) k)"
proof -
  let ?m = "fold mergeEvent earlier (fold seedScreen screenViews [])"
  from seeded_entry[OF assms] obtain screen where
    sc: "screen \<in> set screenViews" "isFeatureScreen screen" "screenClass screen = eventName event"
      "featureName seeded = screenClass screen"
      "engagementTime seeded = Some (avgEngagementTime screen)"
    by (auto simp: seededFrom_def)
  from fold_mergeEvent_keeps[OF assms, of earlier] obtain existing where
    ex: "Map_get ?m (eventName event) = Some existing"
      "featureName existing = featureName seeded" "featureType existing = featureType seeded"
      "engagementTime existing = engagementTime seeded"
      "relatedScreens existing = relatedScreens seeded"
    by blast
  let ?merged = "mergeInto event existing"
  have g: "Map_get (mergeEvent event ?m) (eventName event) = Some ?merged"
    using ex(1) by (simp add: mergeEvent_existing Map_get_Map_set)
  have upd: "?merged = existing\<lparr> usageCount := usageCount ?merged,
                uniqueUsers := uniqueUsers ?merged, avgUsagePerUser := avgUsagePerUser ?merged \<rparr>"
    by (simp add: mergeInto_def Let_def)
  have fr: "featureName ?merged = featureName seeded" "featureType ?merged = featureType seeded"
    "engagementTime ?merged = engagementTime seeded"
    "relatedScreens ?merged = relatedScreens seeded"
    using ex by (simp_all add: mergeInto_fields mergeInto_detail_fields)
  have scr: "\<exists>screen \<in> set screenViews. isFeatureScreen screen
          \<and> featureName ?merged = screenClass screen
          \<and> engagementTime ?merged = Some (avgEngagementTime screen)"
    using sc fr by auto
  have nm: "featureName seeded = eventName event" using sc by simp
  note others = mergeEvent_other_keys[OF ex(1)]
  show ?thesis
    apply (rule exI[of _ existing])
    apply (rule exI[of _ ?merged])
    apply (intro conjI)
    apply (rule ex(1))
    apply (rule g)
    apply (rule upd)
    apply (rule fr(1))
    apply (rule nm)
    apply (rule fr(2))
    apply (rule fr(3))
    apply (rule fr(4))
    apply (rule scr)
    apply (rule others(1))
    apply (simp add: others(2))
    done
qed

theorem merge_frame_witness:
  "\<exists>merged.
      Map_get (mergeEvent (exEvent ''Home'' 7 400) (fold seedScreen [exScreen ''Home'' 500 300] []))
        ''Home'' = Some merged
    \<and> featureName merged = ''Home'' \<and> featureType merged = TScreen
    \<and> engagementTime merged = Some (Fin (452 / 10)) \<and> relatedScreens merged = None"
proof -
  have n: "eventName (exEvent ''Home'' 7 400) = ''Home''" by (simp add: exEvent_def)
  from merge_frame[OF exScreen_Home_seed, of "[]"]
  obtain merged where
    m: "Map_get (mergeEvent (exEvent ''Home'' 7 400) (fold seedScreen [exScreen ''Home'' 500 300] []))
          (eventName (exEvent ''Home'' 7 400)) = Some merged"
    and f: "featureName merged = ''Home''" "featureType merged = TScreen"
      "engagementTime merged = Some (Fin (452 / 10))" "relatedScreens merged = None"
    by auto
  from m n f
  have "Map_get (mergeEvent (exEvent ''Home'' 7 400) (fold seedScreen [exScreen ''Home'' 500 300] []))
        ''Home'' = Some merged
    \<and> featureName merged = ''Home'' \<and> featureType merged = TScreen
    \<and> engagementTime merged = Some (Fin (452 / 10)) \<and> relatedScreens merged = None"
    by simp
  then show ?thesis by (rule exI)
qed

subsection \<open>The origin of the entries\<close>

lemma seededFrom_originOf: "seededFrom screenViews entry \<Longrightarrow> originOf screenViews names entry"
  by (cases entry) (auto simp: seededFrom_def originOf_def)

lemma Map_get_in_set: "Map_get m k = Some v \<Longrightarrow> (k, v) \<in> set m"
  by (simp add: Map_get_def map_of_SomeD)

lemma originOf_mergeInto:
  "originOf screenViews names (k, existing) \<Longrightarrow>
   originOf screenViews names (k, mergeInto event existing)"
  by (simp add: originOf_def mergeInto_fields mergeInto_detail_fields)

lemma Map_set_origin:
  assumes "\<forall>entry \<in> set m. originOf screenViews names entry"
    and "originOf screenViews names (k, v)"
  shows "\<forall>entry \<in> set (Map_set k v m). originOf screenViews names entry"
proof
  fix entry
  assume "entry \<in> set (Map_set k v m)"
  with set_Map_set_subset[of k v m] have "entry = (k, v) \<or> entry \<in> set m" by blast
  with assms show "originOf screenViews names entry" by blast
qed

lemma mergeEvent_origin:
  assumes "\<forall>entry \<in> set m. originOf screenViews names entry" "eventName event \<in> names"
  shows "\<forall>entry \<in> set (mergeEvent event m). originOf screenViews names entry"
proof (cases "Map_get m (eventName event)")
  case None
  let ?new = "\<lparr> featureName = eventName event, usageCount = eventCount event,
                 uniqueUsers = totalUsers event, avgUsagePerUser = eventCountPerUser event,
                 featureType = classify (eventName event), engagementTime = None,
                 relatedScreens = None \<rparr>"
  have o: "originOf screenViews names (eventName event, ?new)"
    using assms(2) by (simp add: originOf_def)
  have e: "mergeEvent event m = Map_set (eventName event) ?new m"
    using None by (simp add: mergeEvent_def Let_def)
  show ?thesis unfolding e using assms(1) o by (rule Map_set_origin)
next
  case (Some existing)
  then have "(eventName event, existing) \<in> set m" by (rule Map_get_in_set)
  with assms(1) have "originOf screenViews names (eventName event, existing)" by blast
  then have o: "originOf screenViews names (eventName event, mergeInto event existing)"
    by (rule originOf_mergeInto)
  show ?thesis unfolding mergeEvent_existing[OF Some] using assms(1) o by (rule Map_set_origin)
qed

lemma fold_mergeEvent_origin:
  assumes "\<forall>entry \<in> set m. originOf screenViews names entry" "eventName ` set evs \<subseteq> names"
  shows "\<forall>entry \<in> set (fold mergeEvent evs m). originOf screenViews names entry"
  using assms
proof (induction evs arbitrary: m)
  case Nil
  then show ?case by simp
next
  case (Cons e evs)
  from Cons.prems have "\<forall>entry \<in> set (mergeEvent e m). originOf screenViews names entry"
    by (intro mergeEvent_origin) auto
  with Cons show ?case by simp
qed

lemma attachRelated_origin:
  "originOf screenViews names entry \<Longrightarrow> originOf screenViews names (attachRelated sv entry)"
  by (cases entry) (auto simp: originOf_def attachRelated_def Let_def)

lemma detailMap_origin:
  "\<forall>entry \<in> set (detailMap events screenViews).
     originOf screenViews (eventName ` set events) entry"
proof -
  have "\<forall>entry \<in> set (fold seedScreen screenViews []). seededFrom screenViews entry"
    by (rule fold_seedScreen_entries) simp_all
  then have "\<forall>entry \<in> set (fold seedScreen screenViews []).
               originOf screenViews (eventName ` set events) entry"
    using seededFrom_originOf by blast
  then have "\<forall>entry \<in> set (fold mergeEvent events (fold seedScreen screenViews [])).
               originOf screenViews (eventName ` set events) entry"
    by (rule fold_mergeEvent_origin) simp
  then show ?thesis
    by (auto simp: detailMap_def intro: attachRelated_origin)
qed

lemma mset_insertSorted: "mset (insertSorted cmp x ys) = add_mset x (mset ys)"
  by (induction ys) auto

lemma mset_js_sort: "mset (js_sort cmp xs) = mset xs"
  by (induction xs) (simp_all add: js_sort_def mset_insertSorted)

lemma set_js_sort: "set (js_sort cmp xs) = set xs"
  using mset_js_sort[of cmp xs] by (metis set_mset_mset)


lemma feature_origin:
  assumes "f \<in> set (getFeatureUsageAnalysis events screenViews)"
  shows "originOf screenViews (eventName ` set events) (featureName f, f)"
proof -
  from assms obtain k where k: "(k, f) \<in> set (detailMap events screenViews)"
    by (auto simp: getFeatureUsageAnalysis_def set_js_sort Map_values_def)
  with detailMap_origin have o: "originOf screenViews (eventName ` set events) (k, f)" by blast
  then have "featureName f = k" by (simp add: originOf_def)
  with o show ?thesis by simp
qed

lemma classify_sentinels: "classify ''(not set)'' = TEvent" "classify ''(other)'' = TEvent"
  by code_simp+

text \<open>
  C5, as amended. A screen named \<open>(not set)\<close> or \<open>(other)\<close> never becomes an entry of
  the detailed feature list: an entry with one of these names is named after an event of
  the events list, has type \<open>event\<close> and carries no engagement time.
\<close>

theorem sentinel_names_from_events:
  assumes "f \<in> set (getFeatureUsageAnalysis events screenViews)"
    and "featureName f = ''(not set)'' \<or> featureName f = ''(other)''"
  shows "featureName f \<in> eventName ` set events \<and> featureType f = TEvent
         \<and> engagementTime f = None"
proof -
  from feature_origin[OF assms(1)]
  have o: "(featureType f = TScreen
             \<and> (\<exists>screen \<in> set screenViews. isFeatureScreen screen
                   \<and> screenClass screen = featureName f
                   \<and> engagementTime f = Some (avgEngagementTime screen)))
           \<or> (featureType f = classify (featureName f)
               \<and> featureName f \<in> eventName ` set events \<and> engagementTime f = None)"
    by (simp add: originOf_def)
  have "\<not> (\<exists>screen \<in> set screenViews. isFeatureScreen screen
              \<and> screenClass screen = featureName f)"
    using assms(2) by (auto simp: isFeatureScreen_def)
  with o have "featureType f = classify (featureName f)
               \<and> featureName f \<in> eventName ` set events \<and> engagementTime f = None"
    by blast
  with assms(2) classify_sentinels show ?thesis by auto
qed

text \<open>
  As the specification states it, the property fails: the screen \<open>(other)\<close> is dropped, the event \<open>(not set)\<close>
  becomes an entry.
\<close>

theorem sentinel_event_counterexample:
  "map featureName
     (getFeatureUsageAnalysis [exEvent ''(not set)'' 5 3] [exScreen ''(other)'' 9 2])
   = [''(not set)'']"
  by code_simp


theorem sentinel_names_from_events_witness:
  "getFeatureUsageAnalysis [exEvent ''(not set)'' 5 3] [exScreen ''(other)'' 9 2]
     = [\<lparr> featureName = ''(not set)'', usageCount = Fin 5, uniqueUsers = Fin 3,
           avgUsagePerUser = Fin (5 / 3), featureType = TEvent, engagementTime = None,
           relatedScreens = None \<rparr>]
   \<and> ''(not set)'' \<in> eventName ` set [exEvent ''(not set)'' 5 3]"
proof -
  let ?f = "\<lparr> featureName = ''(not set)'', usageCount = Fin 5, uniqueUsers = Fin 3,
           avgUsagePerUser = Fin (5 / 3), featureType = TEvent, engagementTime = None,
           relatedScreens = None \<rparr>"
  have v: "getFeatureUsageAnalysis [exEvent ''(not set)'' 5 3] [exScreen ''(other)'' 9 2] = [?f]"
    by code_simp
  then have m: "?f \<in> set (getFeatureUsageAnalysis [exEvent ''(not set)'' 5 3]
                             [exScreen ''(other)'' 9 2])"
    by simp
  have n: "featureName ?f = ''(not set)'' \<or> featureName ?f = ''(other)''" by simp
  from sentinel_names_from_events[OF m n]
  have "featureName ?f \<in> eventName ` set [exEvent ''(not set)'' 5 3]" by (rule conjunct1)
  then have "''(not set)'' \<in> eventName ` set [exEvent ''(not set)'' 5 3]" by simp
  with v show ?thesis by (intro conjI)
qed

subsection \<open>The names of the entries, in order\<close>

lemma uniqueInOrder_append:
  "uniqueInOrder (xs @ ys)
   = foldl (\<lambda>acc x. if x \<in> set acc then acc else acc @ [x]) (uniqueInOrder xs) ys"
  by (simp add: uniqueInOrder_def)

lemma keys_seedScreen:
  "map fst (seedScreen s m)
   = (if isFeatureScreen s
      then (if screenClass s \<in> set (map fst m) then map fst m else map fst m @ [screenClass s])
      else map fst m)"
  by (simp add: seedScreen_def keys_Map_set)

lemma keys_fold_seedScreen:
  "map fst (fold seedScreen screens m)
   = foldl (\<lambda>acc x. if x \<in> set acc then acc else acc @ [x]) (map fst m)
       (map screenClass (filter isFeatureScreen screens))"
proof (induction screens arbitrary: m)
  case Nil
  then show ?case by simp
next
  case (Cons s screens)
  show ?case by (simp add: Cons.IH keys_seedScreen)
qed

lemma keys_mergeEvent:
  "map fst (mergeEvent e m)
   = (if eventName e \<in> set (map fst m) then map fst m else map fst m @ [eventName e])"
  by (cases "Map_get m (eventName e)") (simp_all add: mergeEvent_def Let_def keys_Map_set)

lemma keys_fold_mergeEvent:
  "map fst (fold mergeEvent evs m)
   = foldl (\<lambda>acc x. if x \<in> set acc then acc else acc @ [x]) (map fst m) (map eventName evs)"
proof (induction evs arbitrary: m)
  case Nil
  then show ?case by simp
next
  case (Cons e evs)
  show ?case by (simp add: Cons.IH keys_mergeEvent)
qed

lemma keys_attachRelated: "map fst (map (attachRelated sv) m) = map fst m"
proof -
  have "fst (attachRelated sv entry) = fst entry" for entry
    by (cases entry) (simp add: attachRelated_def Let_def)
  then show ?thesis by simp
qed

lemma keys_detailMap:
  "map fst (detailMap events screenViews)
   = uniqueInOrder (map screenClass (filter isFeatureScreen screenViews) @ map eventName events)"
proof -
  have s: "map fst (fold seedScreen screenViews [])
        = uniqueInOrder (map screenClass (filter isFeatureScreen screenViews))"
    by (simp add: keys_fold_seedScreen uniqueInOrder_def)
  have "map fst (detailMap events screenViews)
        = map fst (fold mergeEvent events (fold seedScreen screenViews []))"
    unfolding detailMap_def by (rule keys_attachRelated)
  also have "\<dots> = foldl (\<lambda>acc x. if x \<in> set acc then acc else acc @ [x])
                     (map fst (fold seedScreen screenViews [])) (map eventName events)"
    by (rule keys_fold_mergeEvent)
  also have "\<dots> = uniqueInOrder (map screenClass (filter isFeatureScreen screenViews)
                                   @ map eventName events)"
    unfolding s by (rule uniqueInOrder_append[symmetric])
  finally show ?thesis .
qed

lemma names_detailMap:
  "map featureName (Map_values (detailMap events screenViews))
   = uniqueInOrder (map screenClass (filter isFeatureScreen screenViews) @ map eventName events)"
proof -
  have "featureName (snd entry) = fst entry"
    if "entry \<in> set (detailMap events screenViews)" for entry
    using detailMap_origin[of events screenViews] that
    by (cases entry) (auto simp: originOf_def)
  then have "map featureName (Map_values (detailMap events screenViews))
             = map fst (detailMap events screenViews)"
    by (simp add: Map_values_def)
  then show ?thesis by (simp add: keys_detailMap)
qed

subsection \<open>Sorting by usage count\<close>

lemma isSafeCount_Fin:
  "isSafeCount x \<Longrightarrow> \<exists>q. x = Fin q \<and> q = of_int \<lfloor>q\<rfloor> \<and> 0 \<le> q \<and> q \<le> 2 ^ 53"
  by (auto simp: isSafeCount_def split: number.splits)

lemma js_sub_safe:
  assumes "isSafeCount (Fin b)" "isSafeCount (Fin a)"
  shows "js_sub (Fin b) (Fin a) = Fin (b - a)"
proof -
  from assms have a: "a = of_int \<lfloor>a\<rfloor>" "0 \<le> a" "a \<le> 2 ^ 53"
    and b: "b = of_int \<lfloor>b\<rfloor>" "0 \<le> b" "b \<le> 2 ^ 53"
    by (auto simp: isSafeCount_def)
  have "b - a = of_int (\<lfloor>b\<rfloor> - \<lfloor>a\<rfloor>)" using a(1) b(1) by simp
  then have i: "b - a = of_int \<lfloor>b - a\<rfloor>" by (metis floor_of_int)
  have "\<bar>b - a\<bar> \<le> 2 ^ 53" using a(2,3) b(2,3) by linarith
  with i have "round64 (b - a) = Fin (b - a)" by (rule round64_safe)
  then show ?thesis by (simp add: js_sub_def)
qed

lemma insertSorted_insort_key:
  assumes "isSafeCount (usageCount x)" "\<forall>y \<in> set ys. isSafeCount (usageCount y)"
  shows "insertSorted byUsageDesc x ys = insort_key (\<lambda>f. - finVal (usageCount f)) x ys"
  using assms(2)
proof (induction ys)
  case Nil
  then show ?case by simp
next
  case (Cons y ys)
  from assms(1) obtain a where a: "usageCount x = Fin a" "isSafeCount (Fin a)"
    using isSafeCount_Fin by metis
  from Cons.prems obtain b where b: "usageCount y = Fin b" "isSafeCount (Fin b)"
    using isSafeCount_Fin by (metis list.set_intros(1))
  have "js_sgn (byUsageDesc x y) > 0 \<longleftrightarrow> a < b"
    by (simp add: byUsageDesc_def a(1) b(1) js_sub_safe[OF b(2) a(2)])
  with Cons a b show ?case by (auto simp: finVal_def)
qed

lemma js_sort_sort_key:
  assumes "\<forall>x \<in> set xs. isSafeCount (usageCount x)"
  shows "js_sort byUsageDesc xs = sort_key (\<lambda>f. - finVal (usageCount f)) xs"
  using assms
proof (induction xs)
  case Nil
  then show ?case by (simp add: js_sort_def)
next
  case (Cons x xs)
  then have ih: "js_sort byUsageDesc xs = sort_key (\<lambda>f. - finVal (usageCount f)) xs" by simp
  have "js_sort byUsageDesc (x # xs) = insertSorted byUsageDesc x (js_sort byUsageDesc xs)"
    by (simp add: js_sort_def)
  also have "\<dots> = insort_key (\<lambda>f. - finVal (usageCount f)) x (js_sort byUsageDesc xs)"
    using Cons.prems by (intro insertSorted_insort_key) (simp_all add: set_js_sort)
  finally show ?case by (simp add: ih)
qed

lemma finVal_inj:
  "isFinite a \<Longrightarrow> isFinite b \<Longrightarrow> finVal a = finVal b \<Longrightarrow> a = b"
  by (auto simp: isFinite_def finVal_def split: number.splits)

lemma isSafeCount_isFinite: "isSafeCount x \<Longrightarrow> isFinite x"
  by (auto simp: isSafeCount_def isFinite_def split: number.splits)

text \<open>
  For safe usage counts the result of \<open>js_sort\<close> is the stable descending sort: it has the
  same entries, the usage counts do not increase, and the entries of one usage count stay
  in their order.
\<close>

lemma js_sort_stable_descending:
  assumes "\<forall>x \<in> set xs. isSafeCount (usageCount x)"
  shows "mset (js_sort byUsageDesc xs) = mset xs"
    and "sorted_wrt (\<lambda>a b. finVal (usageCount b) \<le> finVal (usageCount a)) (js_sort byUsageDesc xs)"
    and "filter (\<lambda>f. usageCount f = u) (js_sort byUsageDesc xs) = filter (\<lambda>f. usageCount f = u) xs"
proof -
  let ?k = "\<lambda>f. - finVal (usageCount f)"
  note r = js_sort_sort_key[OF assms]
  show "mset (js_sort byUsageDesc xs) = mset xs" by (rule mset_js_sort)
  have "sorted (map ?k (sort_key ?k xs))" by (rule sorted_sort_key)
  then show "sorted_wrt (\<lambda>a b. finVal (usageCount b) \<le> finVal (usageCount a))
               (js_sort byUsageDesc xs)"
    by (simp add: r sorted_map)
  show "filter (\<lambda>f. usageCount f = u) (js_sort byUsageDesc xs) = filter (\<lambda>f. usageCount f = u) xs"
  proof (cases "isFinite u")
    case True
    have eq: "(usageCount f = u) = (?k f = - finVal u)" if "f \<in> set xs" for f
      using that assms True isSafeCount_isFinite finVal_inj by auto
    have "filter (\<lambda>f. usageCount f = u) (sort_key ?k xs)
          = filter (\<lambda>f. ?k f = - finVal u) (sort_key ?k xs)"
      by (rule filter_cong) (simp_all add: eq)
    also have "\<dots> = filter (\<lambda>f. ?k f = - finVal u) xs"
      by (rule sort_key_stable)
    also have "\<dots> = filter (\<lambda>f. usageCount f = u) xs"
      by (rule filter_cong) (simp_all add: eq)
    finally show ?thesis by (simp add: r)
  next
    case False
    then have "usageCount f \<noteq> u" if "f \<in> set xs" for f
      using that assms isSafeCount_isFinite by auto
    then have "filter (\<lambda>f. usageCount f = u) xs = []"
      and "filter (\<lambda>f. usageCount f = u) (js_sort byUsageDesc xs) = []"
      by (simp_all add: filter_empty_conv set_js_sort)
    then show ?thesis by simp
  qed
qed

subsection \<open>Sums of safe counts are exact\<close>

lemma isCount_Fin: "isCount x \<Longrightarrow> \<exists>q. x = Fin q \<and> q = of_int \<lfloor>q\<rfloor> \<and> 0 \<le> q"
  by (auto simp: isCount_def split: number.splits)

lemma js_add_safe:
  assumes "isCount a" "isCount b" "finVal a + finVal b \<le> 2 ^ 53"
  shows "js_add a b = Fin (finVal a + finVal b)"
proof -
  from assms(1) obtain p where p: "a = Fin p" "p = of_int \<lfloor>p\<rfloor>" "0 \<le> p"
    using isCount_Fin by blast
  from assms(2) obtain q where q: "b = Fin q" "q = of_int \<lfloor>q\<rfloor>" "0 \<le> q"
    using isCount_Fin by blast
  have "p + q = of_int (\<lfloor>p\<rfloor> + \<lfloor>q\<rfloor>)" using p(2) q(2) by simp
  then have i: "p + q = of_int \<lfloor>p + q\<rfloor>" by (metis floor_of_int)
  have "\<bar>p + q\<bar> \<le> 2 ^ 53" using assms(3) p q by (simp add: finVal_def)
  with i have "round64 (p + q) = Fin (p + q)" by (rule round64_safe)
  then show ?thesis by (simp add: p(1) q(1) finVal_def)
qed

lemma isCount_sum:
  assumes "isCount a" "isCount b"
  shows "isCount (Fin (finVal a + finVal b))"
proof -
  from assms(1) obtain p where p: "a = Fin p" "p = of_int \<lfloor>p\<rfloor>" "0 \<le> p"
    using isCount_Fin by blast
  from assms(2) obtain q where q: "b = Fin q" "q = of_int \<lfloor>q\<rfloor>" "0 \<le> q"
    using isCount_Fin by blast
  have "p + q = of_int (\<lfloor>p\<rfloor> + \<lfloor>q\<rfloor>)" using p(2) q(2) by simp
  then have i: "p + q = of_int \<lfloor>p + q\<rfloor>" by (metis floor_of_int)
  with p(3) q(3) show ?thesis by (simp add: isCount_def p(1) q(1) finVal_def)
qed

lemma finVal_isCount: "isCount a \<Longrightarrow> 0 \<le> finVal a"
  by (auto simp: isCount_def finVal_def split: number.splits)

lemma mergeInto_exact:
  assumes "isCount (usageCount x)" "isCount (eventCount e)"
    "finVal (usageCount x) + finVal (eventCount e) \<le> 2 ^ 53"
  shows "mergeInto e x = exactMergeInto e x"
  by (simp add: mergeInto_def exactMergeInto_def js_add_safe[OF assms])

lemma usageCount_exactMergeInto:
  "usageCount (exactMergeInto e x) = Fin (finVal (usageCount x) + finVal (eventCount e))"
  by (simp add: exactMergeInto_def Let_def)

lemma sumCounts_Cons: "sumCounts (e # evs) = finVal (eventCount e) + sumCounts evs"
  by (simp add: sumCounts_def)

lemma sumCounts_nonneg: "\<forall>e \<in> set evs. isCount (eventCount e) \<Longrightarrow> 0 \<le> sumCounts evs"
  by (induction evs) (simp_all add: sumCounts_def finVal_isCount)

subsection \<open>The usage counts stay within the budget\<close>

lemma withinBudget_mono:
  "withinBudget S m \<Longrightarrow> 0 \<le> S' \<Longrightarrow> S' \<le> S \<Longrightarrow> withinBudget S' m"
  by (fastforce simp: withinBudget_def)

lemma withinBudget_Map_set:
  assumes "withinBudget S m" "isCount (usageCount v)" "finVal (usageCount v) + S \<le> 2 ^ 53"
  shows "withinBudget S (Map_set k v m)"
proof -
  have "entry = (k, v) \<or> entry \<in> set m" if "entry \<in> set (Map_set k v m)" for entry
    using that set_Map_set_subset[of k v m] by auto
  with assms show ?thesis unfolding withinBudget_def by fastforce
qed

lemma withinBudget_entry:
  "withinBudget S m \<Longrightarrow> Map_get m k = Some x \<Longrightarrow>
   isCount (usageCount x) \<and> finVal (usageCount x) + S \<le> 2 ^ 53"
  using Map_get_in_set[of m k x] by (fastforce simp: withinBudget_def)

lemma withinBudget_merged:
  assumes b: "withinBudget (finVal (eventCount e) + S) m" and c: "isCount (eventCount e)"
    and S: "0 \<le> S" and g: "Map_get m k = Some x"
  shows "mergeInto e x = exactMergeInto e x"
    and "withinBudget S (Map_set k (mergeInto e x) m)"
proof -
  from withinBudget_entry[OF b g]
  have x: "isCount (usageCount x)" "finVal (usageCount x) + (finVal (eventCount e) + S) \<le> 2 ^ 53"
    by simp_all
  from x(2) S have le: "finVal (usageCount x) + finVal (eventCount e) \<le> 2 ^ 53" by linarith
  show eq: "mergeInto e x = exactMergeInto e x" by (rule mergeInto_exact[OF x(1) c le])
  have m: "withinBudget S m"
    using b S finVal_isCount[OF c] by (intro withinBudget_mono[OF b]) simp_all
  have "isCount (usageCount (mergeInto e x))"
    unfolding eq usageCount_exactMergeInto by (rule isCount_sum[OF x(1) c])
  moreover have "finVal (usageCount (mergeInto e x)) + S \<le> 2 ^ 53"
    unfolding eq usageCount_exactMergeInto using x(2) by (simp add: finVal_def add.assoc)
  ultimately show "withinBudget S (Map_set k (mergeInto e x) m)"
    by (intro withinBudget_Map_set[OF m])
qed

lemma withinBudget_new:
  assumes b: "withinBudget (finVal (eventCount e) + S) m" and c: "isCount (eventCount e)"
    and S: "0 \<le> S" and u: "usageCount v = eventCount e"
  shows "withinBudget S (Map_set k v m)"
proof -
  have m: "withinBudget S m"
    using b S finVal_isCount[OF c] by (intro withinBudget_mono[OF b]) simp_all
  from b have "finVal (eventCount e) + S \<le> 2 ^ 53" by (simp add: withinBudget_def)
  with c u show ?thesis by (intro withinBudget_Map_set[OF m]) simp_all
qed

lemma mergeEvent_exact:
  assumes "withinBudget (finVal (eventCount e) + S) m" "isCount (eventCount e)" "0 \<le> S"
  shows "mergeEvent e m = exactMergeEvent e m" and "withinBudget S (mergeEvent e m)"
proof -
  show "mergeEvent e m = exactMergeEvent e m"
  proof (cases "Map_get m (eventName e)")
    case None
    then show ?thesis by (simp add: mergeEvent_def exactMergeEvent_def newDetail_def Let_def)
  next
    case (Some x)
    with withinBudget_merged(1)[OF assms Some] show ?thesis
      by (simp add: mergeEvent_def exactMergeEvent_def Let_def)
  qed
  show "withinBudget S (mergeEvent e m)"
  proof (cases "Map_get m (eventName e)")
    case None
    then show ?thesis
      by (simp add: mergeEvent_def Let_def) (rule withinBudget_new[OF assms], simp)
  next
    case (Some x)
    with withinBudget_merged(2)[OF assms Some] show ?thesis
      by (simp add: mergeEvent_def Let_def)
  qed
qed

lemma fold_mergeEvent_exact:
  assumes "withinBudget (sumCounts evs) m" "\<forall>e \<in> set evs. isCount (eventCount e)"
  shows "fold mergeEvent evs m = fold exactMergeEvent evs m
         \<and> withinBudget 0 (fold mergeEvent evs m)"
  using assms
proof (induction evs arbitrary: m)
  case Nil
  then show ?case by (simp add: sumCounts_def)
next
  case (Cons e evs)
  from Cons.prems(2) have c: "isCount (eventCount e)"
    and cs: "\<forall>e \<in> set evs. isCount (eventCount e)" by simp_all
  from Cons.prems(1) have b: "withinBudget (finVal (eventCount e) + sumCounts evs) m"
    by (simp add: sumCounts_Cons)
  note s = sumCounts_nonneg[OF cs]
  note step = mergeEvent_exact[OF b c s]
  from Cons.IH[OF step(2) cs]
  have "fold mergeEvent evs (mergeEvent e m) = fold exactMergeEvent evs (mergeEvent e m)"
    and w: "withinBudget 0 (fold mergeEvent evs (mergeEvent e m))" by blast+
  then have "fold mergeEvent (e # evs) m = fold exactMergeEvent (e # evs) m"
    by (simp add: step(1))
  moreover from w have "withinBudget 0 (fold mergeEvent (e # evs) m)" by simp
  ultimately show ?case by (rule conjI)
qed



lemma withinBudget_safe:
  "withinBudget 0 m \<Longrightarrow> \<forall>g \<in> set (Map_values m). isSafeCount (usageCount g)"
  by (fastforce simp: withinBudget_def Map_values_def isCount_def isSafeCount_def finVal_def
      split: number.splits)

lemma seeds_withinBudget:
  assumes "safeCounts events screenViews"
  shows "withinBudget (sumCounts events) (fold seedScreen screenViews [])"
proof -
  have "\<forall>entry \<in> set (fold seedScreen screenViews []). seededFrom screenViews entry"
    by (rule fold_seedScreen_entries) simp_all
  moreover have "isCount (usageCount (snd entry))
      \<and> finVal (usageCount (snd entry)) + sumCounts events \<le> 2 ^ 53"
    if "seededFrom screenViews entry" for entry
    using that assms by (cases entry) (auto simp: seededFrom_def safeCounts_def)
  moreover have "0 \<le> sumCounts events"
    using assms by (intro sumCounts_nonneg) (simp add: safeCounts_def)
  ultimately show ?thesis using assms by (simp add: withinBudget_def safeCounts_def)
qed

subsection \<open>The entries of the summary aggregation\<close>




















subsection \<open>Exact sums and maxima do not depend on the order\<close>

lemma Math_max_commute: "Math_max a b = Math_max b a"
  by (cases a; cases b) (simp_all add: max.commute)

lemma Math_max_right_commute: "Math_max (Math_max a b) c = Math_max (Math_max a c) b"
  by (cases a; cases b; cases c) (simp_all add: max.left_commute max.commute)

lemma finVal_Fin [simp]: "finVal (Fin q) = q"
  by (simp add: finVal_def)

lemma exactMergeInto_commute:
  "exactMergeInto e1 (exactMergeInto e2 x) = exactMergeInto e2 (exactMergeInto e1 x)"
  by (simp add: exactMergeInto_def Let_def add.assoc add.commute[of "finVal (eventCount e1)"]
      Math_max_right_commute[of _ "totalUsers e2"])

lemma exactMergeInto_newDetail_commute:
  assumes "eventName e1 = eventName e2"
  shows "exactMergeInto e1 (newDetail e2) = exactMergeInto e2 (newDetail e1)"
  using assms
  by (simp add: exactMergeInto_def newDetail_def Let_def add.commute[of "finVal (eventCount e1)"]
      Math_max_commute[of "totalUsers e1"])

lemma exactMergeFun_commute:
  "exactMergeFun e1 (exactMergeFun e2 g) = exactMergeFun e2 (exactMergeFun e1 g)"
proof (cases "eventName e1 = eventName e2")
  case True
  show ?thesis
  proof (cases "g (eventName e2)")
    case None
    with True show ?thesis
      by (simp add: exactMergeFun_def exactMergeInto_newDetail_commute)
  next
    case (Some existing)
    with True show ?thesis
      by (simp add: exactMergeFun_def exactMergeInto_commute)
  qed
next
  case False
  then have "eventName e2 \<noteq> eventName e1" by simp
  with False show ?thesis
    by (simp add: exactMergeFun_def fun_upd_twist)
qed

lemma map_of_Map_set: "map_of (Map_set k v m) = (map_of m)(k \<mapsto> v)"
  by (induction m) (auto simp: fun_upd_twist)

lemma map_of_exactMergeEvent:
  "map_of (exactMergeEvent event m) = exactMergeFun event (map_of m)"
  by (cases "map_of m (eventName event)")
     (simp_all add: exactMergeEvent_def exactMergeFun_def Map_get_def map_of_Map_set)

lemma map_of_fold_exactMergeEvent:
  "map_of (fold exactMergeEvent evs m) = fold exactMergeFun evs (map_of m)"
  by (induction evs arbitrary: m) (simp_all add: map_of_exactMergeEvent)

lemma fold_exactMergeFun_perm:
  assumes "mset evs = mset evs'"
  shows "fold exactMergeFun evs = fold exactMergeFun evs'"
proof (rule fold_multiset_equiv)
  show "mset evs = mset evs'" by (rule assms)
next
  fix x y
  show "exactMergeFun x \<circ> exactMergeFun y = exactMergeFun y \<circ> exactMergeFun x"
    by (rule ext) (simp add: exactMergeFun_commute)
qed

lemma mergeEvent_distinct:
  "distinct (map fst m) \<Longrightarrow> distinct (map fst (mergeEvent event m))"
  by (cases "Map_get m (eventName event)")
     (simp_all add: mergeEvent_def Let_def distinct_Map_set)

lemma fold_mergeEvent_distinct:
  "distinct (map fst m) \<Longrightarrow> distinct (map fst (fold mergeEvent evs m))"
  by (induction evs arbitrary: m) (simp_all add: mergeEvent_distinct)

lemma distinct_keys_mset:
  assumes "distinct (map fst xs)" "distinct (map fst ys)" "map_of xs = map_of ys"
  shows "mset xs = mset ys"
proof -
  from assms have "set xs = set ys" by (simp add: map_of_inject_set)
  moreover from assms(1,2) have "distinct xs" "distinct ys"
    by (simp_all add: distinct_map)
  ultimately show ?thesis by (simp add: set_eq_iff_mset_eq_distinct)
qed

lemma sumCounts_perm: "mset evs = mset evs' \<Longrightarrow> sumCounts evs = sumCounts evs'"
proof -
  assume "mset evs = mset evs'"
  then have "mset (map (\<lambda>e. finVal (eventCount e)) evs) = mset (map (\<lambda>e. finVal (eventCount e)) evs')"
    by simp
  then have "sum_mset (mset (map (\<lambda>e. finVal (eventCount e)) evs))
           = sum_mset (mset (map (\<lambda>e. finVal (eventCount e)) evs'))" by (rule arg_cong)
  then show ?thesis by (simp only: sumCounts_def sum_mset_sum_list)
qed

lemma safeCounts_perm:
  assumes "mset events = mset events'" "safeCounts events screenViews"
  shows "safeCounts events' screenViews"
proof -
  from assms(1) have "set events = set events'" by (rule mset_eq_setD)
  with assms(2) sumCounts_perm[OF assms(1)] show ?thesis by (simp add: safeCounts_def)
qed

lemma detailMap_perm:
  assumes p: "mset events = mset events'" and s: "safeCounts events screenViews"
  shows "mset (detailMap events screenViews) = mset (detailMap events' screenViews)"
proof -
  let ?seed = "fold seedScreen screenViews []"
  note s' = safeCounts_perm[OF p s]
  from s have c: "\<forall>e \<in> set events. isCount (eventCount e)" by (simp add: safeCounts_def)
  from s' have c': "\<forall>e \<in> set events'. isCount (eventCount e)" by (simp add: safeCounts_def)
  from fold_mergeEvent_exact[OF seeds_withinBudget[OF s] c]
  have e: "fold mergeEvent events ?seed = fold exactMergeEvent events ?seed" by (rule conjunct1)
  from fold_mergeEvent_exact[OF seeds_withinBudget[OF s'] c']
  have e': "fold mergeEvent events' ?seed = fold exactMergeEvent events' ?seed" by (rule conjunct1)
  have d: "distinct (map fst ?seed)" by (rule fold_seedScreen_distinct) simp
  have "map_of (fold mergeEvent events ?seed) = map_of (fold mergeEvent events' ?seed)"
    unfolding e e' by (simp add: map_of_fold_exactMergeEvent fold_exactMergeFun_perm[OF p])
  with fold_mergeEvent_distinct[OF d, of events] fold_mergeEvent_distinct[OF d, of events']
  have "mset (fold mergeEvent events ?seed) = mset (fold mergeEvent events' ?seed)"
    by (rule distinct_keys_mset)
  then have "image_mset (attachRelated screenViews) (mset (fold mergeEvent events ?seed))
           = image_mset (attachRelated screenViews) (mset (fold mergeEvent events' ?seed))"
    by simp
  then show ?thesis by (simp add: detailMap_def)
qed

lemma features_perm:
  assumes "mset events = mset events'" "safeCounts events screenViews"
  shows "mset (getFeatureUsageAnalysis events screenViews)
         = mset (getFeatureUsageAnalysis events' screenViews)"
proof -
  from detailMap_perm[OF assms]
  have "image_mset snd (mset (detailMap events screenViews))
        = image_mset snd (mset (detailMap events' screenViews))" by simp
  then show ?thesis
    by (simp add: getFeatureUsageAnalysis_def mset_js_sort Map_values_def)
qed

lemma usageCount_attachRelated:
  "usageCount (snd (attachRelated screenViews entry)) = usageCount (snd entry)"
  by (cases entry) (simp add: attachRelated_def Let_def)

lemma detailMap_safe:
  assumes "safeCounts events screenViews"
  shows "\<forall>g \<in> set (Map_values (detailMap events screenViews)). isSafeCount (usageCount g)"
proof -
  from assms have c: "\<forall>e \<in> set events. isCount (eventCount e)" by (simp add: safeCounts_def)
  from fold_mergeEvent_exact[OF seeds_withinBudget[OF assms] c]
  have "withinBudget 0 (fold mergeEvent events (fold seedScreen screenViews []))"
    by (rule conjunct2)
  then have "\<forall>g \<in> set (Map_values (fold mergeEvent events (fold seedScreen screenViews []))).
               isSafeCount (usageCount g)"
    by (rule withinBudget_safe)
  then show ?thesis
    by (simp add: detailMap_def Map_values_def usageCount_attachRelated)
qed

lemma sort_key_unique:
  fixes k :: "'a \<Rightarrow> rat"
  assumes "mset xs = mset ys" "distinct (map k xs)"
  shows "sort_key k xs = sort_key k ys"
proof -
  let ?a = "sort_key k xs" and ?b = "sort_key k ys"
  have m: "mset ?a = mset ?b" using assms(1) by simp
  have da: "distinct (map k ?a)"
    using assms(2) by (metis mset_map mset_sort mset_eq_imp_distinct_iff)
  have db: "distinct (map k ?b)"
    using da m by (metis mset_map mset_eq_imp_distinct_iff)
  have s: "set (map k ?a) = set (map k ?b)"
    using m by (metis mset_map set_mset_mset)
  have "map k ?a = map k ?b"
    by (rule sorted_distinct_set_unique) (simp_all add: da db s del: set_map)
  moreover have "inj_on k (set ?a \<union> set ?b)"
  proof -
    from m have "set ?b = set ?a" by (metis set_mset_mset)
    with da show ?thesis by (simp add: distinct_map)
  qed
  ultimately show ?thesis by (simp add: inj_on_map_eq_map)
qed

lemma features_equal:
  assumes p: "mset events = mset events'" and s: "safeCounts events screenViews"
    and d: "distinct (map usageCount (getFeatureUsageAnalysis events screenViews))"
  shows "getFeatureUsageAnalysis events screenViews = getFeatureUsageAnalysis events' screenViews"
proof -
  let ?xs = "Map_values (detailMap events screenViews)"
  let ?ys = "Map_values (detailMap events' screenViews)"
  let ?k = "\<lambda>f :: FeatureUsageDetail. - finVal (usageCount f)"
  note fx = detailMap_safe[OF s]
  note fy = detailMap_safe[OF safeCounts_perm[OF p s]]
  have mxy: "mset ?xs = mset ?ys"
    using features_perm[OF p s] by (simp add: getFeatureUsageAnalysis_def mset_js_sort)
  have r: "getFeatureUsageAnalysis events screenViews = sort_key ?k ?xs"
    "getFeatureUsageAnalysis events' screenViews = sort_key ?k ?ys"
    by (simp_all add: getFeatureUsageAnalysis_def js_sort_sort_key[OF fx] js_sort_sort_key[OF fy])
  from d have "distinct (map usageCount (sort_key ?k ?xs))" by (simp add: r(1))
  then have "distinct (map usageCount ?xs)"
    by (metis mset_map mset_sort mset_eq_imp_distinct_iff)
  then have dx: "distinct ?xs" and inj: "inj_on usageCount (set ?xs)"
    by (simp_all add: distinct_map)
  have "inj_on ?k (set ?xs)"
  proof (rule inj_onI)
    fix a b
    assume ab: "a \<in> set ?xs" "b \<in> set ?xs" "- finVal (usageCount a) = - finVal (usageCount b)"
    with fx have "usageCount a = usageCount b"
      by (auto intro: finVal_inj isSafeCount_isFinite)
    with inj ab show "a = b" by (auto dest: inj_onD)
  qed
  with dx have "distinct (map ?k ?xs)" by (simp add: distinct_map)
  with mxy have "sort_key ?k ?xs = sort_key ?k ?ys" by (rule sort_key_unique)
  then show ?thesis by (simp add: r)
qed

text \<open>
  C3, as amended. Let the event counts and the views be non-negative integers, the event
  counts together with the views of any one screen adding up to at most \<open>2 ^ 53\<close>, so that
  no sum is rounded. Then for event lists that are permutations of each other the detailed
  aggregation gives the same entries (names, types, counts, unique users, averages,
  related screens): the two results are permutations of each other, and they are the same
  list where the usage counts of the entries are pairwise distinct. The order of the
  result is that of the stable descending sort by usage count: the usage counts do not
  increase, and the entries of one usage count stand in the order of the feature map,
  which is that of the distinct classes of the screens that pass the seeding filter
  followed by the distinct names of the events, as they come in the event list.
\<close>

theorem aggregation_permutation:
  assumes "mset events = mset events'" "safeCounts events screenViews"
  shows "mset (getFeatureUsageAnalysis events screenViews)
         = mset (getFeatureUsageAnalysis events' screenViews)
    \<and> (distinct (map usageCount (getFeatureUsageAnalysis events screenViews))
        \<longrightarrow> getFeatureUsageAnalysis events screenViews
            = getFeatureUsageAnalysis events' screenViews)
    \<and> sorted_wrt (\<lambda>a b. finVal (usageCount b) \<le> finVal (usageCount a))
        (getFeatureUsageAnalysis events screenViews)
    \<and> (\<forall>u. filter (\<lambda>f. usageCount f = u) (getFeatureUsageAnalysis events screenViews)
             = filter (\<lambda>f. usageCount f = u) (Map_values (detailMap events screenViews)))
    \<and> map featureName (Map_values (detailMap events screenViews))
        = uniqueInOrder (map screenClass (filter isFeatureScreen screenViews)
            @ map eventName events)"
proof (intro conjI impI allI)
  note safe = detailMap_safe[OF assms(2)]
  show "mset (getFeatureUsageAnalysis events screenViews)
         = mset (getFeatureUsageAnalysis events' screenViews)"
    using assms by (rule features_perm)
  show "getFeatureUsageAnalysis events screenViews = getFeatureUsageAnalysis events' screenViews"
    if "distinct (map usageCount (getFeatureUsageAnalysis events screenViews))"
    using assms that by (rule features_equal)
  show "sorted_wrt (\<lambda>a b. finVal (usageCount b) \<le> finVal (usageCount a))
        (getFeatureUsageAnalysis events screenViews)"
    unfolding getFeatureUsageAnalysis_def by (rule js_sort_stable_descending(2)[OF safe])
  show "filter (\<lambda>f. usageCount f = u) (getFeatureUsageAnalysis events screenViews)
             = filter (\<lambda>f. usageCount f = u) (Map_values (detailMap events screenViews))" for u
    unfolding getFeatureUsageAnalysis_def by (rule js_sort_stable_descending(3)[OF safe])
  show "map featureName (Map_values (detailMap events screenViews))
        = uniqueInOrder (map screenClass (filter isFeatureScreen screenViews)
            @ map eventName events)"
    by (rule names_detailMap)
qed

text \<open>
  As the specification states it, the property fails. Two events with equal counts come
  out in the order in which they went in; and three counts whose sum exceeds \<open>2 ^ 53\<close>
  add up to \<open>9007199254740992\<close> in one order and to \<open>9007199254740994\<close> in the other.
\<close>

theorem aggregation_order_counterexample:
  "mset [exEvent ''a'' 5 3, exEvent ''b'' 5 3] = mset [exEvent ''b'' 5 3, exEvent ''a'' 5 3]
   \<and> map featureName (getFeatureUsageAnalysis [exEvent ''a'' 5 3, exEvent ''b'' 5 3] [])
       = [''a'', ''b'']
   \<and> map featureName (getFeatureUsageAnalysis [exEvent ''b'' 5 3, exEvent ''a'' 5 3] [])
       = [''b'', ''a'']
   \<and> mset exampleLargeEvents = mset (rev exampleLargeEvents)
   \<and> map usageCount (getFeatureUsageAnalysis exampleLargeEvents [])
       = [Fin 9007199254740992]
   \<and> map usageCount (getFeatureUsageAnalysis (rev exampleLargeEvents) [])
       = [Fin 9007199254740994]"
proof (intro conjI)
  show "mset [exEvent ''a'' 5 3, exEvent ''b'' 5 3] = mset [exEvent ''b'' 5 3, exEvent ''a'' 5 3]"
    by (simp add: add_mset_commute)
  show "map featureName (getFeatureUsageAnalysis [exEvent ''a'' 5 3, exEvent ''b'' 5 3] [])
       = [''a'', ''b'']" by code_simp
  show "map featureName (getFeatureUsageAnalysis [exEvent ''b'' 5 3, exEvent ''a'' 5 3] [])
       = [''b'', ''a'']" by code_simp
  show "mset exampleLargeEvents = mset (rev exampleLargeEvents)" by simp
  show "map usageCount (getFeatureUsageAnalysis exampleLargeEvents [])
       = [Fin 9007199254740992]" by code_simp
  show "map usageCount (getFeatureUsageAnalysis (rev exampleLargeEvents) [])
       = [Fin 9007199254740994]" by code_simp
qed

theorem aggregation_permutation_witness:
  "mset exampleEvents = mset (rev exampleEvents)
   \<and> safeCounts exampleEvents exampleScreens
   \<and> mset (getFeatureUsageAnalysis exampleEvents exampleScreens)
       = mset (getFeatureUsageAnalysis (rev exampleEvents) exampleScreens)
   \<and> getFeatureUsageAnalysis exampleEvents exampleScreens
       = getFeatureUsageAnalysis (rev exampleEvents) exampleScreens
   \<and> map featureName (getFeatureUsageAnalysis exampleEvents exampleScreens)
       = [''Home'', ''session_start'', ''menu_settings'']
   \<and> map usageCount (getFeatureUsageAnalysis exampleEvents exampleScreens)
       = [Fin 507, Fin 29, Fin 20]
   \<and> sorted_wrt (\<lambda>a b. finVal (usageCount b) \<le> finVal (usageCount a))
        (getFeatureUsageAnalysis exampleEvents exampleScreens)
   \<and> map featureName (Map_values (detailMap exampleEvents exampleScreens))
       = uniqueInOrder (map screenClass (filter isFeatureScreen exampleScreens)
           @ map eventName exampleEvents)"
proof -
  have p: "mset exampleEvents = mset (rev exampleEvents)" by simp
  have s: "safeCounts exampleEvents exampleScreens" by code_simp
  have d: "distinct (map usageCount (getFeatureUsageAnalysis exampleEvents exampleScreens))"
    by code_simp
  have n: "map featureName (getFeatureUsageAnalysis exampleEvents exampleScreens)
       = [''Home'', ''session_start'', ''menu_settings'']" by code_simp
  have u: "map usageCount (getFeatureUsageAnalysis exampleEvents exampleScreens)
       = [Fin 507, Fin 29, Fin 20]" by code_simp
  note t = aggregation_permutation[OF p s]
  from t have m: "mset (getFeatureUsageAnalysis exampleEvents exampleScreens)
       = mset (getFeatureUsageAnalysis (rev exampleEvents) exampleScreens)"
    by (rule conjunct1)
  from t have "distinct (map usageCount (getFeatureUsageAnalysis exampleEvents exampleScreens))
        \<longrightarrow> getFeatureUsageAnalysis exampleEvents exampleScreens
            = getFeatureUsageAnalysis (rev exampleEvents) exampleScreens"
    by (rule conjunct1[OF conjunct2])
  with d have e: "getFeatureUsageAnalysis exampleEvents exampleScreens
       = getFeatureUsageAnalysis (rev exampleEvents) exampleScreens"
    by (rule rev_mp)
  from t have o: "sorted_wrt (\<lambda>a b. finVal (usageCount b) \<le> finVal (usageCount a))
        (getFeatureUsageAnalysis exampleEvents exampleScreens)"
    by (rule conjunct1[OF conjunct2[OF conjunct2]])
  from t have k: "map featureName (Map_values (detailMap exampleEvents exampleScreens))
       = uniqueInOrder (map screenClass (filter isFeatureScreen exampleScreens)
           @ map eventName exampleEvents)"
    by (rule conjunct2[OF conjunct2[OF conjunct2[OF conjunct2]]])
  from p s m e n u o k show ?thesis by (intro conjI)
qed

end
